theory Spec2Isabelle
  imports Main "HOL-Library.Word" "HOL-Library.Sublist" "HOL-Library.Char_ord"
    "HOL-Library.List_Lexorder"
begin

section \<open>SAX events\<close>

text \<open>
  The event-receiver contract of \<^verbatim>\<open>gq.cc\<close>: one method per event kind, each returning
  \<^verbatim>\<open>bool\<close>. An \<open>event\<close> is one call of such a method with its arguments; the constructor
  carries the method's name. A text span \<^verbatim>\<open>(const Ch* str, SizeType len)\<close> is the list of
  the \<^verbatim>\<open>len\<close> bytes it denotes, so \<^verbatim>\<open>len\<close> is \<open>length str\<close>. \<^verbatim>\<open>SizeType\<close> is
  \<^verbatim>\<open>unsigned\<close>, 32 bits wide. An \<^verbatim>\<open>int\<close> or \<^verbatim>\<open>int64_t\<close> is a word read in two's
  complement (\<open>sint\<close>), and a \<^verbatim>\<open>double\<close> is carried as its 64-bit pattern: no method of
  the handler inspects a scalar's value. The method \<^verbatim>\<open>Int\<close> is the constructor \<open>Int_ev\<close>
  (\<open>Int\<close> is HOL's intersection).
\<close>

type_synonym SizeType = "32 word"

datatype event =
    Null
  | Bool bool
  | Int_ev "32 word"
  | Uint "32 word"
  | Int64 "64 word"
  | Uint64 "64 word"
  | Double "64 word"
  | RawNumber string bool
  | String string bool
  | StartObject
  | Key string bool
  | EndObject SizeType
  | StartArray
  | EndArray SizeType

text \<open>
  The template parameter \<^verbatim>\<open>OutputHandler\<close>: an object with the same methods. Its state is
  a value of type \<open>'c\<close>, and calling the method named by an event returns the method's
  \<^verbatim>\<open>bool\<close> and the object's next state.
\<close>

type_synonym 'c OutputHandler = "event \<Rightarrow> 'c \<Rightarrow> bool \<times> 'c"

section \<open>FilterKeyHandler (gq.cc, lines 31 to 120)\<close>

text \<open>
  The fields of the class. \<open>outputHandler\<close> is the state of the object behind the
  reference \<^verbatim>\<open>outputHandler_\<close>. \<open>keyString\<close> is the span
  \<^verbatim>\<open>(keyString_, keyLength_)\<close>, so \<^verbatim>\<open>keyLength_\<close> is its length. \<open>filterValueDepth\<close>
  is \<^verbatim>\<open>unsigned\<close>: a 32-bit word whose \<open>+\<close> and \<open>-\<close> wrap around. \<open>filteredKeyCount\<close>
  is the \<^verbatim>\<open>std::stack\<close>, its top at the head of the list.
\<close>

record 'c FilterKeyHandler =
  outputHandler :: 'c
  keyString :: string
  filterValueDepth :: "32 word"
  filteredKeyCount :: "SizeType list"

definition keyLength :: "'c FilterKeyHandler \<Rightarrow> nat" where
  "keyLength h = length (keyString h)"

text \<open>
  The constructor (line 36): \<^verbatim>\<open>filterValueDepth_()\<close> and \<^verbatim>\<open>filteredKeyCount_()\<close> are
  value-initialised, to 0 and to the empty stack.
\<close>

definition FilterKeyHandler_new :: "'c \<Rightarrow> string \<Rightarrow> 'c FilterKeyHandler" where
  "FilterKeyHandler_new c key =
     \<lparr>outputHandler = c, keyString = key, filterValueDepth = 0, filteredKeyCount = []\<rparr>"

text \<open>
  \<^verbatim>\<open>top()\<close> and \<^verbatim>\<open>pop()\<close> on an empty \<^verbatim>\<open>std::stack\<close> are undefined behaviour; the model
  stops there with a fault instead of a result.
\<close>

datatype fault = EmptyStack

text \<open>\<^verbatim>\<open>std::memcmp(a, b, n) == 0\<close>: the first \<open>n\<close> bytes of the two buffers agree.\<close>

definition memcmp_eq0 :: "string \<Rightarrow> string \<Rightarrow> nat \<Rightarrow> bool" where
  "memcmp_eq0 a b n = (take n a = take n b)"

text \<open>\<^verbatim>\<open>EndValue\<close> (lines 109 to 113).\<close>

definition EndValue :: "'c FilterKeyHandler \<Rightarrow> bool \<times> 'c FilterKeyHandler" where
  "EndValue h =
     (True, if filterValueDepth h = 1 then h\<lparr>filterValueDepth := 0\<rparr> else h)"

text \<open>A call \<^verbatim>\<open>outputHandler_.m(args)\<close>: the downstream object moves on, the rest of
  the handler's state stays.\<close>

definition forward ::
  "'c OutputHandler \<Rightarrow> event \<Rightarrow> 'c FilterKeyHandler \<Rightarrow> bool \<times> 'c FilterKeyHandler" where
  "forward out e h = (case out e (outputHandler h) of (ok, c) \<Rightarrow> (ok, h\<lparr>outputHandler := c\<rparr>))"

text \<open>\<^verbatim>\<open>a && EndValue()\<close>: \<^verbatim>\<open>EndValue\<close> runs only when \<open>a\<close> returned true.\<close>

definition and_EndValue :: "bool \<times> 'c FilterKeyHandler \<Rightarrow> bool \<times> 'c FilterKeyHandler" where
  "and_EndValue r = (case r of (ok, h) \<Rightarrow> if ok then EndValue h else (False, h))"

text \<open>The body shared by the nine scalar methods (lines 40 to 48):
  \<^verbatim>\<open>filterValueDepth_ > 0 ? EndValue() : outputHandler_.m(args) && EndValue()\<close>.\<close>

definition scalar_method ::
  "'c OutputHandler \<Rightarrow> event \<Rightarrow> 'c FilterKeyHandler \<Rightarrow> bool \<times> 'c FilterKeyHandler" where
  "scalar_method out e h =
     (if filterValueDepth h > 0 then EndValue h else and_EndValue (forward out e h))"

text \<open>
  The methods of the class, one equation each: \<open>FilterKeyHandler_call out e h\<close> is the
  call of the method named by \<open>e\<close> on the handler in state \<open>h\<close>, with \<open>out\<close> the methods
  of the downstream object.
\<close>

fun FilterKeyHandler_call ::
  "'c OutputHandler \<Rightarrow> event \<Rightarrow> 'c FilterKeyHandler \<Rightarrow> fault + bool \<times> 'c FilterKeyHandler"
where
  "FilterKeyHandler_call out Null h = Inr (scalar_method out Null h)"
| "FilterKeyHandler_call out (Bool b) h = Inr (scalar_method out (Bool b) h)"
| "FilterKeyHandler_call out (Int_ev i) h = Inr (scalar_method out (Int_ev i) h)"
| "FilterKeyHandler_call out (Uint u) h = Inr (scalar_method out (Uint u) h)"
| "FilterKeyHandler_call out (Int64 i) h = Inr (scalar_method out (Int64 i) h)"
| "FilterKeyHandler_call out (Uint64 u) h = Inr (scalar_method out (Uint64 u) h)"
| "FilterKeyHandler_call out (Double d) h = Inr (scalar_method out (Double d) h)"
| "FilterKeyHandler_call out (RawNumber str copy) h =
     Inr (scalar_method out (RawNumber str copy) h)"
| "FilterKeyHandler_call out (String str copy) h =
     Inr (scalar_method out (String str copy) h)"
| "FilterKeyHandler_call out StartObject h =
     (if filterValueDepth h > 0
      then Inr (True, h\<lparr>filterValueDepth := filterValueDepth h + 1\<rparr>)
      else Inr (forward out StartObject (h\<lparr>filteredKeyCount := 0 # filteredKeyCount h\<rparr>)))"
| "FilterKeyHandler_call out (Key str copy) h =
     (if filterValueDepth h > 0 then Inr (True, h)
      else if length str = keyLength h \<and> memcmp_eq0 str (keyString h) (length str)
      then Inr (True, h\<lparr>filterValueDepth := 1\<rparr>)
      else (case filteredKeyCount h of
              [] \<Rightarrow> Inl EmptyStack
            | n # st \<Rightarrow>
                Inr (forward out (Key str copy) (h\<lparr>filteredKeyCount := (n + 1) # st\<rparr>))))"
| "FilterKeyHandler_call out (EndObject upstream) h =
     (if filterValueDepth h > 0
      then Inr (EndValue (h\<lparr>filterValueDepth := filterValueDepth h - 1\<rparr>))
      else (case filteredKeyCount h of
              [] \<Rightarrow> Inl EmptyStack
            | memberCount # st \<Rightarrow>
                Inr (and_EndValue
                       (forward out (EndObject memberCount) (h\<lparr>filteredKeyCount := st\<rparr>)))))"
| "FilterKeyHandler_call out StartArray h =
     (if filterValueDepth h > 0
      then Inr (True, h\<lparr>filterValueDepth := filterValueDepth h + 1\<rparr>)
      else Inr (forward out StartArray h))"
| "FilterKeyHandler_call out (EndArray elementCount) h =
     (if filterValueDepth h > 0
      then Inr (EndValue (h\<lparr>filterValueDepth := filterValueDepth h - 1\<rparr>))
      else Inr (and_EndValue (forward out (EndArray elementCount) h)))"

section \<open>The parser's side of the contract\<close>

text \<open>
  Modelled from the spec: the text parser (rapidjson's \<^verbatim>\<open>Reader\<close>, not part of the
  repository's sources) "calls back into the filter for every structural token and
  aborts on the first false return". \<open>Parse out es h\<close> is \<^verbatim>\<open>reader.Parse(is_, filter)\<close>
  (line 137) on an input whose tokens are the events \<open>es\<close>: the events are delivered in
  order, and delivery stops at the first call that returns false.
\<close>

fun Parse ::
  "'c OutputHandler \<Rightarrow> event list \<Rightarrow> 'c FilterKeyHandler \<Rightarrow> fault + bool \<times> 'c FilterKeyHandler"
where
  "Parse out [] h = Inr (True, h)"
| "Parse out (e # es) h =
     (case FilterKeyHandler_call out e h of
        Inl f \<Rightarrow> Inl f
      | Inr (ok, h') \<Rightarrow> if ok then Parse out es h' else Inr (False, h'))"

text \<open>
  \<^verbatim>\<open>FilterKeyReader::operator()\<close> (lines 134 to 139): a fresh filter around the given
  handler, then one parse.
\<close>

definition FilterKeyReader_call ::
  "event list \<Rightarrow> string \<Rightarrow> 'c OutputHandler \<Rightarrow> 'c \<Rightarrow> fault + bool \<times> 'c FilterKeyHandler" where
  "FilterKeyReader_call es key out c = Parse out es (FilterKeyHandler_new c key)"

text \<open>
  A downstream object that records every call it receives, in order, and answers by an
  arbitrary function \<open>acc\<close> of the calls so far and the present one. Every deterministic
  consumer answers this way, and the record is the sequence of forwarded events.
\<close>

definition recorder :: "(event list \<Rightarrow> event \<Rightarrow> bool) \<Rightarrow> event list OutputHandler" where
  "recorder acc e log = (acc log e, log @ [e])"

definition accept_all :: "event list \<Rightarrow> event \<Rightarrow> bool" where
  "accept_all log e = True"

text \<open>
  What a downstream object receives when the events \<open>es\<close> are delivered to it directly,
  under the same contract: in order, up to the first call that returns false.
\<close>

fun deliver :: "'c OutputHandler \<Rightarrow> event list \<Rightarrow> 'c \<Rightarrow> bool \<times> 'c" where
  "deliver out [] c = (True, c)"
| "deliver out (e # es) c =
     (case out e c of (ok, c') \<Rightarrow> if ok then deliver out es c' else (False, c'))"

text \<open>What the downstream object has seen of a pass: nothing to say after a fault.\<close>

definition consumer_view ::
  "fault + bool \<times> 'c FilterKeyHandler \<Rightarrow> (bool \<times> 'c) option" where
  "consumer_view r = (case r of Inl f \<Rightarrow> None | Inr (ok, h) \<Rightarrow> Some (ok, outputHandler h))"

section \<open>Well-formed event streams\<close>

text \<open>
  Modelled from the spec: the parser "produces a linear sequence of structural events,
  enforcing well-formedness (matching starts/ends, valid scalar encodings)", and
  \<^verbatim>\<open>EndObject\<close> and \<^verbatim>\<open>EndArray\<close> carry the member count and the element count. A
  well-formed stream is the stream \<open>events_of t\<close> of one document \<open>t\<close>: a scalar is one
  event, an object is \<^verbatim>\<open>StartObject\<close>, then each member's \<^verbatim>\<open>Key\<close> and value, then
  \<^verbatim>\<open>EndObject\<close> with the number of members, an array likewise. The document keeps the
  parser's choice of numeric method and of the \<^verbatim>\<open>copy\<close> flags, and the counts are
  \<^verbatim>\<open>SizeType\<close> values.
\<close>

datatype scalar =
    SNull
  | SBool bool
  | SInt "32 word"
  | SUint "32 word"
  | SInt64 "64 word"
  | SUint64 "64 word"
  | SDouble "64 word"
  | SRawNumber string bool
  | SString string bool

fun scalar_event :: "scalar \<Rightarrow> event" where
  "scalar_event SNull = Null"
| "scalar_event (SBool b) = Bool b"
| "scalar_event (SInt i) = Int_ev i"
| "scalar_event (SUint u) = Uint u"
| "scalar_event (SInt64 i) = Int64 i"
| "scalar_event (SUint64 u) = Uint64 u"
| "scalar_event (SDouble d) = Double d"
| "scalar_event (SRawNumber str copy) = RawNumber str copy"
| "scalar_event (SString str copy) = String str copy"

datatype json = Scalar scalar | Object "member list" | Array "json list"
  and member = Member (name: string) (copy_flag: bool) (val: json)

fun events_of :: "json \<Rightarrow> event list" and member_events :: "member \<Rightarrow> event list" where
  "events_of (Scalar v) = [scalar_event v]"
| "events_of (Object ms) =
     StartObject # concat (map member_events ms) @ [EndObject (of_nat (length ms))]"
| "events_of (Array vs) =
     StartArray # concat (map events_of vs) @ [EndArray (of_nat (length vs))]"
| "member_events (Member k copy v) = Key k copy # events_of v"

text \<open>How many containers are open at the deepest point of a document.\<close>

fun height :: "json \<Rightarrow> nat" and member_height :: "member \<Rightarrow> nat" where
  "height (Scalar v) = 0"
| "height (Object ms) = Suc (foldr max (map member_height ms) 0)"
| "height (Array vs) = Suc (foldr max (map height vs) 0)"
| "member_height (Member k copy v) = height v"

text \<open>
  The document with every member named \<open>key\<close> removed, at any depth: what the spec asks
  the filter to deliver ("every value reachable via a member named keyString removed").
\<close>

fun filter_json :: "string \<Rightarrow> json \<Rightarrow> json"
  and filter_member :: "string \<Rightarrow> member \<Rightarrow> member" where
  "filter_json key (Scalar v) = Scalar v"
| "filter_json key (Object ms) =
     Object (map (filter_member key) (filter (\<lambda>m. name m \<noteq> key) ms))"
| "filter_json key (Array vs) = Array (map (filter_json key) vs)"
| "filter_member key (Member k copy v) = Member k copy (filter_json key v)"

text \<open>
  Every value that the filter suppresses (the value of a member named \<open>key\<close> that is not
  itself inside such a value) opens at most \<open>2 ^ 32 - 2\<close> containers inside one another,
  so that the 32-bit \<open>filterValueDepth\<close>, which starts from 1 there, does not wrap.
\<close>

fun fits_depth :: "string \<Rightarrow> json \<Rightarrow> bool"
  and member_fits :: "string \<Rightarrow> member \<Rightarrow> bool" where
  "fits_depth key (Scalar v) = True"
| "fits_depth key (Object ms) = list_all (member_fits key) ms"
| "fits_depth key (Array vs) = list_all (fits_depth key) vs"
| "member_fits key (Member k copy v) =
     (if k = key then height v < 2 ^ 32 - 1 else fits_depth key v)"

section \<open>Notions the properties are stated with\<close>

text \<open>
  The events that complete exactly one value (a scalar, \<^verbatim>\<open>EndObject\<close>, \<^verbatim>\<open>EndArray\<close>), and
  among them those that close a container.
\<close>

fun completes_value :: "event \<Rightarrow> bool" where
  "completes_value StartObject = False"
| "completes_value (Key str copy) = False"
| "completes_value StartArray = False"
| "completes_value e = True"

fun closes_container :: "event \<Rightarrow> bool" where
  "closes_container (EndObject n) = True"
| "closes_container (EndArray n) = True"
| "closes_container e = False"




text \<open>
  The filter on \<open>ins\<close> in state \<open>h\<close> does to the consumer what delivering \<open>outs\<close> directly
  does, and when the consumer accepts all of \<open>outs\<close> it ends with the stack \<open>st\<close> and
  otherwise as it started.
\<close>

definition passes ::
  "'c OutputHandler \<Rightarrow> event list \<Rightarrow> event list \<Rightarrow> 'c FilterKeyHandler \<Rightarrow> SizeType list \<Rightarrow> bool"
where
  "passes out ins outs h st =
     (case deliver out outs (outputHandler h) of (ok, c) \<Rightarrow>
        if ok then Parse out ins h = Inr (True, h\<lparr>outputHandler := c, filteredKeyCount := st\<rparr>)
        else (\<exists>h'. Parse out ins h = Inr (False, h') \<and> outputHandler h' = c))"

text \<open>
  The document of the spec's nested-match property,
  \<^verbatim>\<open>{"a":{"coordinates":{"x":1,"y":[1,2,{"coordinates":"deep"}]},"b":2}}\<close>, and the
  expected result \<^verbatim>\<open>{"a":{"b":2}}\<close>. The parser reports a small non-negative integer
  through \<^verbatim>\<open>Uint\<close>, and strings of a stream that is not parsed in place with
  \<^verbatim>\<open>copy = true\<close>.
\<close>

definition nested_doc :: json where
  "nested_doc =
     Object [Member ''a'' True (Object
       [Member ''coordinates'' True (Object
          [Member ''x'' True (Scalar (SUint 1)),
           Member ''y'' True (Array
             [Scalar (SUint 1), Scalar (SUint 2),
              Object [Member ''coordinates'' True (Scalar (SString ''deep'' True))]])]),
        Member ''b'' True (Scalar (SUint 2))])]"

definition nested_expected :: json where
  "nested_expected = Object [Member ''a'' True (Object [Member ''b'' True (Scalar (SUint 2))])]"

text \<open>A value inside \<open>n\<close> arrays of one element each, and a document whose member
  \<^verbatim>\<open>coordinates\<close> holds an empty object inside \<open>2 ^ 32 - 2\<close> such arrays.\<close>

fun nest :: "nat \<Rightarrow> json \<Rightarrow> json" where
  "nest 0 t = t"
| "nest (Suc n) t = Array [nest n t]"

definition deep_doc :: json where
  "deep_doc = Object [Member ''coordinates'' True (nest (2 ^ 32 - 2) (Object []))]"


text \<open>The events that the handler forwards, when it does, without touching its stack.\<close>

fun passes_through :: "event \<Rightarrow> bool" where
  "passes_through StartObject = False"
| "passes_through (Key str copy) = False"
| "passes_through (EndObject n) = False"
| "passes_through e = True"



section \<open>Where an event stands in its document\<close>

text \<open>
  The position reached after a prefix of an event stream, read from the input alone. A
  \<open>frame\<close> is a container that is open: whether it is an object, and whether it is
  suppressed, that is, whether it is the value of a member named by the filter key or
  lies inside such a value. A \<open>position\<close> is the open containers, innermost first, and
  whether the last event was a \<^verbatim>\<open>Key\<close> naming the filter key outside every suppressed
  container, so that the value to come is suppressed (\<open>pending\<close>). Nothing here is
  counted in a machine integer.
\<close>

datatype frame = Frame (is_object: bool) (suppressed: bool)

type_synonym position = "bool \<times> frame list"

definition inside :: "frame list \<Rightarrow> bool" where
  "inside fs = (case fs of [] \<Rightarrow> False | f # below \<Rightarrow> suppressed f)"

fun track :: "string \<Rightarrow> event \<Rightarrow> position \<Rightarrow> position" where
  "track key StartObject (pending, fs) = (False, Frame True (pending \<or> inside fs) # fs)"
| "track key StartArray (pending, fs) = (False, Frame False (pending \<or> inside fs) # fs)"
| "track key (EndObject n) (pending, fs) = (False, tl fs)"
| "track key (EndArray n) (pending, fs) = (False, tl fs)"
| "track key (Key str copy) (pending, fs) = (\<not> inside fs \<and> str = key, fs)"
| "track key e (pending, fs) = (False, fs)"

definition track_run :: "string \<Rightarrow> event list \<Rightarrow> position \<Rightarrow> position" where
  "track_run key es s = foldl (\<lambda>s e. track key e s) s es"

text \<open>
  The open objects that are not suppressed ("currently-open objects whose StartObject was
  forwarded (not suppressed)"), and whether the next event lies inside a suppressed
  subtree: it starts the value of a matching key, or a suppressed container is open.
\<close>

definition open_count :: "frame list \<Rightarrow> nat" where
  "open_count fs = length (filter (\<lambda>f. is_object f \<and> \<not> suppressed f) fs)"

definition open_forwarded :: "string \<Rightarrow> event list \<Rightarrow> nat" where
  "open_forwarded key pre = open_count (snd (track_run key pre (False, [])))"

definition in_suppressed :: "string \<Rightarrow> event list \<Rightarrow> bool" where
  "in_suppressed key pre =
     (case track_run key pre (False, []) of (pending, fs) \<Rightarrow> pending \<or> inside fs)"

text \<open>
  The handler in state \<open>h\<close> is in step with the position \<open>s\<close>: its stack has one entry
  per open object that is not suppressed, and its depth is not 0 exactly inside a
  suppressed subtree. \<open>always out key P es h s\<close>: \<open>P\<close> holds after every prefix of \<open>es\<close>
  that the handler, started in \<open>h\<close> at position \<open>s\<close>, has processed without a rejection.
\<close>

definition in_step :: "'c FilterKeyHandler \<Rightarrow> position \<Rightarrow> bool" where
  "in_step h s =
     (length (filteredKeyCount h) = open_count (snd s) \<and>
      (filterValueDepth h \<noteq> 0) = (fst s \<or> inside (snd s)))"

definition always ::
  "'c OutputHandler \<Rightarrow> string \<Rightarrow> ('c FilterKeyHandler \<Rightarrow> position \<Rightarrow> bool) \<Rightarrow>
   event list \<Rightarrow> 'c FilterKeyHandler \<Rightarrow> position \<Rightarrow> bool" where
  "always out key P es h s =
     (\<forall>pre h'. prefix pre es \<and> Parse out pre h = Inr (True, h') \<longrightarrow>
        P h' (track_run key pre s))"

section \<open>main (gq.cc, lines 153 to 224)\<close>

text \<open>
  \<^verbatim>\<open>main\<close> is modelled with what it takes from outside as parameters:
  \<^item> \<open>argv0\<close> and \<open>args\<close>: \<^verbatim>\<open>argv[0]\<close> and the positional arguments, so \<^verbatim>\<open>argc\<close> is
    \<open>Suc (length args)\<close>;
  \<^item> \<open>fopen\<close>: the file system, \<open>None\<close> where \<^verbatim>\<open>fopen(path, "rb")\<close> returns \<^verbatim>\<open>NULL\<close>;
  \<^item> \<open>Populate fp key len\<close>: lines 166 to 176 on the opened file, that is the stream, the
    \<^verbatim>\<open>FilterKeyReader\<close> made from \<^verbatim>\<open>(is, key.c_str(), key.size())\<close>,
    \<^verbatim>\<open>document.Populate(reader)\<close> and \<^verbatim>\<open>reader.GetParseResult()\<close>; it returns the parse
    result and the document. The stream, \<^verbatim>\<open>Reader\<close> and \<^verbatim>\<open>Document\<close> are rapidjson's;
  \<^item> \<open>GetParseError_En\<close>: rapidjson's table of English error descriptions;
  \<^item> \<open>id_counts\<close>: the value the uninitialised \<^verbatim>\<open>int id_counts\<close> (line 185) happens to
    hold. It is incremented and never read.
  A \<^verbatim>\<open>ParseResult\<close> is an error code and an offset; \<^verbatim>\<open>!pr\<close> holds when the code is not
  \<^verbatim>\<open>kParseErrorNone\<close>, which is 0.
\<close>

datatype ParseResult = ParseResult (Code: nat) (Offset: nat)

definition IsError :: "ParseResult \<Rightarrow> bool" where
  "IsError pr = (Code pr \<noteq> 0)"

text \<open>
  What \<^verbatim>\<open>main\<close> writes, one constructor per output statement, with the values it
  formats: \<open>Usage\<close> is line 155, \<open>UnableToOpen\<close> line 161, \<open>ParseErrorMessage\<close> line 178
  (the offset cast to \<^verbatim>\<open>unsigned\<close>), \<open>AssertionFailure\<close> the macro \<^verbatim>\<open>ASSERT\<close> (lines 21 to
  28) with its message, and \<open>Features\<close>, \<open>Geometries\<close>, \<open>Count\<close>, \<open>Properties\<close> the
  summary of lines 204 to 214.
\<close>

datatype message =
    Usage string
  | UnableToOpen string
  | ParseErrorMessage "32 word" string
  | AssertionFailure string
  | Features nat
  | Geometries
  | Properties
  | Count int string

text \<open>
  How the program ends: with an exit code (\<^verbatim>\<open>return\<close> from \<^verbatim>\<open>main\<close>, or
  \<^verbatim>\<open>std::exit(EXIT_FAILURE)\<close> in \<^verbatim>\<open>ASSERT\<close>), or \<open>Aborted\<close> where an accessor of
  rapidjson is called on a value outside its precondition (\<^verbatim>\<open>RAPIDJSON_ASSERT\<close>: the
  member is missing, or the value is not of the kind asked for). \<^verbatim>\<open>EXIT_FAILURE\<close> is 1.
\<close>

datatype outcome = Exit int | Aborted

definition EXIT_FAILURE :: int where
  "EXIT_FAILURE = 1"

text \<open>
  Modelled from the spec: the consumer is "a builder that turns the forwarded event stream
  into a persistent document value", and the statistics are "read-only traversals of the
  resulting document"; rapidjson's \<^verbatim>\<open>Document\<close> and its accessors are not part of the
  repository's sources. The populated document is the tree of the events the consumer
  received. The accessors used by \<^verbatim>\<open>main\<close>: \<^verbatim>\<open>FindMember\<close> returns the first member of
  that name;
  \<^verbatim>\<open>IsString\<close>/\<^verbatim>\<open>GetString\<close> hold of a string (the document stores a raw number as a
  string too). \<^verbatim>\<open>GetString()\<close> returns a \<^verbatim>\<open>const char*\<close>, and the \<^verbatim>\<open>std::string\<close> made
  from it ends at the first zero byte (\<open>c_string\<close>).
\<close>

fun FindMember :: "string \<Rightarrow> member list \<Rightarrow> json option" where
  "FindMember n [] = None"
| "FindMember n (m # ms) = (if name m = n then Some (val m) else FindMember n ms)"

fun GetString :: "json \<Rightarrow> string option" where
  "GetString (Scalar (SString str copy)) = Some str"
| "GetString (Scalar (SRawNumber str copy)) = Some str"
| "GetString t = None"

definition c_string :: "string \<Rightarrow> string" where
  "c_string str = takeWhile (\<lambda>c. c \<noteq> CHR 0x00) str"

text \<open>
  A \<^verbatim>\<open>std::map<string, int>\<close>, as the list of its entries in the order of the keys, and
  \<^verbatim>\<open>m[k]++\<close> (also \<^verbatim>\<open>m[k] += 1\<close>), which inserts 0 for a new key first. The counters are
  mathematical integers (an \<^verbatim>\<open>int\<close> would need \<open>2 ^ 31\<close> increments to overflow).
\<close>

type_synonym counts = "(string \<times> int) list"

fun increment :: "string \<Rightarrow> counts \<Rightarrow> counts" where
  "increment k [] = [(k, 1)]"
| "increment k ((k', n) # m) =
     (if k = k' then (k', n + 1) # m
      else if k < k' then (k, 1) # (k', n) # m
      else (k', n) # increment k m)"

text \<open>The macro \<^verbatim>\<open>ASSERT\<close> on a false condition: the message goes to \<^verbatim>\<open>cerr\<close> (the
  text of the condition, the file and the line are left out), then
  \<^verbatim>\<open>std::exit(EXIT_FAILURE)\<close>.\<close>

definition ASSERT_failed :: "string \<Rightarrow> outcome \<times> message list" where
  "ASSERT_failed message = (Exit EXIT_FAILURE, [AssertionFailure message])"

text \<open>The body of the loop over the features (lines 187 to 201), on the three
  variables it updates. \<^verbatim>\<open>HasMember\<close> and \<^verbatim>\<open>GetObject\<close> need an object.\<close>

fun feature_body ::
  "json \<Rightarrow> counts \<times> counts \<times> int \<Rightarrow> outcome \<times> message list + counts \<times> counts \<times> int" where
  "feature_body (Object fm) (geometry_counts, property_counts, id_counts) =
     (case FindMember ''geometry'' fm of
        None \<Rightarrow> Inl (ASSERT_failed ''feature has no geometry'')
      | Some (Object gm) \<Rightarrow>
          (case FindMember ''type'' gm of
             None \<Rightarrow> Inl (ASSERT_failed ''geometry has no type'')
           | Some type \<Rightarrow>
               (case GetString type of
                  None \<Rightarrow> Inl (ASSERT_failed ''geometry type is not a string'')
                | Some str \<Rightarrow>
                    (let geometry_counts = increment (c_string str) geometry_counts;
                         id_counts = (if FindMember ''id'' fm \<noteq> None then id_counts + 1
                                      else id_counts)
                     in case FindMember ''properties'' fm of
                          None \<Rightarrow> Inr (geometry_counts, property_counts, id_counts)
                        | Some (Object pm) \<Rightarrow>
                            Inr (geometry_counts,
                                 foldl (\<lambda>pc prop. increment (c_string (name prop)) pc) property_counts pm,
                                 id_counts)
                        | Some props \<Rightarrow> Inl (Aborted, []))))
      | Some geometry \<Rightarrow> Inl (ASSERT_failed ''geometry is not an object''))"
| "feature_body feature s = Inl (Aborted, [])"

text \<open>The loop of line 186.\<close>

fun features_loop ::
  "json list \<Rightarrow> counts \<times> counts \<times> int \<Rightarrow> outcome \<times> message list + counts \<times> counts \<times> int" where
  "features_loop [] s = Inr s"
| "features_loop (feature # features) s =
     (case feature_body feature s of
        Inl stop \<Rightarrow> Inl stop
      | Inr s' \<Rightarrow> features_loop features s')"

text \<open>Lines 186 to 214: \<^verbatim>\<open>document["features"].GetArray()\<close>, the loop, the summary.\<close>

definition count_line :: "string \<times> int \<Rightarrow> message" where
  "count_line type_count = Count (snd type_count) (fst type_count)"

fun statistics :: "json \<Rightarrow> int \<Rightarrow> outcome \<times> message list" where
  "statistics (Object dm) id_counts =
     (case FindMember ''features'' dm of
        Some (Array features) \<Rightarrow>
          (case features_loop features ([], [], id_counts) of
             Inl stop \<Rightarrow> stop
           | Inr (geometry_counts, property_counts, id_counts') \<Rightarrow>
               (Exit 0,
                Features (length features) # Geometries # map count_line geometry_counts
                  @ Properties # map count_line property_counts))
      | other \<Rightarrow> (Aborted, []))"
| "statistics document id_counts = (Aborted, [])"

text \<open>\<^verbatim>\<open>main\<close>, lines 153 to 180 and then the statistics.\<close>

definition main ::
  "string \<Rightarrow> string list \<Rightarrow> (string \<Rightarrow> 'f option) \<Rightarrow>
   ('f \<Rightarrow> string \<Rightarrow> nat \<Rightarrow> ParseResult \<times> json) \<Rightarrow> (nat \<Rightarrow> string) \<Rightarrow> int \<Rightarrow>
   outcome \<times> message list" where
  "main argv0 args fopen Populate GetParseError_En id_counts =
     (if Suc (length args) \<noteq> 2 then (Exit 1, [Usage argv0])
      else case fopen (args ! 0) of
        None \<Rightarrow> (Exit 1, [UnableToOpen (args ! 0)])
      | Some fp \<Rightarrow>
          (let key = ''coordinates'';
               (pr, document) = Populate fp key (length key)
           in if IsError pr
              then (Exit 1, [ParseErrorMessage (of_nat (Offset pr)) (GetParseError_En (Code pr))])
              else statistics document id_counts))"





section \<open>Proofs\<close>

lemma Parse_append:
  "Parse out (a @ b) h =
     (case Parse out a h of
        Inl f \<Rightarrow> Inl f
      | Inr (ok, h') \<Rightarrow> if ok then Parse out b h' else Inr (False, h'))"
  by (induction a arbitrary: h) (auto split: sum.splits)

lemma Parse_concat_same:
  "(\<And>x. x \<in> set xs \<Longrightarrow> Parse out (f x) h = Inr (True, h)) \<Longrightarrow>
   Parse out (concat (map f xs)) h = Inr (True, h)"
  by (induction xs) (simp_all add: Parse_append)

lemma foldr_max_ge: "x \<in> set xs \<Longrightarrow> f x \<le> foldr max (map f xs) (0::nat)"
  by (induction xs) (auto simp: max_def)

lemma height_Array: "v \<in> set vs \<Longrightarrow> height v < height (Array vs)"
  using foldr_max_ge [of v vs height] by simp

lemma height_Object: "m \<in> set ms \<Longrightarrow> member_height m < height (Object ms)"
  using foldr_max_ge [of m ms member_height] by simp

lemma word32_succ:
  fixes d :: "32 word"
  assumes "d \<noteq> 0" "unat d + 1 < 2 ^ 32"
  shows "d + 1 \<noteq> 0" "d + 1 \<noteq> 1" "0 < d + 1" "unat (d + 1) = unat d + 1"
proof -
  have u: "unat (d + 1) = unat d + 1"
    using assms(2) unat_add_lem [of d 1] by simp
  have p: "unat d \<noteq> 0" using assms(1) by (simp add: unat_eq_0)
  show "unat (d + 1) = unat d + 1" by (rule u)
  show n0: "d + 1 \<noteq> 0" using u by (metis Zero_not_Suc Suc_eq_plus1 unat_0)
  show "d + 1 \<noteq> 1" using u p by (metis add_right_cancel add_0 unat_1)
  show "0 < d + 1" using n0 by (simp add: word_gt_0)
qed

lemma Parse_scalar_suppressed:
  "filterValueDepth h \<noteq> 0 \<Longrightarrow>
   Parse out [scalar_event v] h =
     Inr (True, if filterValueDepth h = 1 then h\<lparr>filterValueDepth := 0\<rparr> else h)"
  by (cases v) (simp_all add: scalar_method_def EndValue_def word_gt_0)

lemma Parse_suppressed:
  fixes h h' :: "'a FilterKeyHandler"
  shows "filterValueDepth h \<noteq> 0 \<Longrightarrow> unat (filterValueDepth h) + height t < 2 ^ 32 \<Longrightarrow>
      Parse out (events_of t) h =
        Inr (True, if filterValueDepth h = 1 then h\<lparr>filterValueDepth := 0\<rparr> else h)"
    and "filterValueDepth h' \<noteq> 0 \<Longrightarrow> filterValueDepth h' \<noteq> 1 \<Longrightarrow>
      unat (filterValueDepth h') + member_height m < 2 ^ 32 \<Longrightarrow>
      Parse out (member_events m) h' = Inr (True, h')"
proof (induction t and m arbitrary: h and h')
  case (Scalar v)
  show ?case using Parse_scalar_suppressed [OF Scalar.prems(1), of out v] by simp
next
  case (Object ms)
  let ?h1 = "h\<lparr>filterValueDepth := filterValueDepth h + 1\<rparr>"
  have b: "unat (filterValueDepth h) + 1 < 2 ^ 32" using Object.prems(2) by simp
  note w = word32_succ [OF Object.prems(1) b]
  have "Parse out (concat (map member_events ms)) ?h1 = Inr (True, ?h1)"
  proof (rule Parse_concat_same)
    fix m assume m: "m \<in> set ms"
    have "unat (filterValueDepth ?h1) + member_height m < 2 ^ 32"
      using Object.prems(2) height_Object [OF m] w(4) by simp
    then show "Parse out (member_events m) ?h1 = Inr (True, ?h1)"
      using Object.IH [OF m, of ?h1] w by simp
  qed
  then show ?case
    using Object.prems(1) w by (simp add: Parse_append word_gt_0 EndValue_def)
next
  case (Array vs)
  let ?h1 = "h\<lparr>filterValueDepth := filterValueDepth h + 1\<rparr>"
  have b: "unat (filterValueDepth h) + 1 < 2 ^ 32" using Array.prems(2) by simp
  note w = word32_succ [OF Array.prems(1) b]
  have "Parse out (concat (map events_of vs)) ?h1 = Inr (True, ?h1)"
  proof (rule Parse_concat_same)
    fix v assume v: "v \<in> set vs"
    have "unat (filterValueDepth ?h1) + height v < 2 ^ 32"
      using Array.prems(2) height_Array [OF v] w(4) by simp
    then show "Parse out (events_of v) ?h1 = Inr (True, ?h1)"
      using Array.IH [OF v, of ?h1] w by simp
  qed
  then show ?case
    using Array.prems(1) w by (simp add: Parse_append word_gt_0 EndValue_def)
next
  case (Member k c v)
  then show ?case by (simp add: word_gt_0)
qed

lemma deliver_append:
  "deliver out (a @ b) c =
     (case deliver out a c of (ok, c') \<Rightarrow> if ok then deliver out b c' else (False, c'))"
  by (induction a arbitrary: c) (auto split: prod.splits)

lemma passes_append:
  assumes "passes out a a' h st1"
    and "\<And>c. passes out b b' (h\<lparr>outputHandler := c, filteredKeyCount := st1\<rparr>) st2"
  shows "passes out (a @ b) (a' @ b') h st2"
proof -
  obtain ok c where d: "deliver out a' (outputHandler h) = (ok, c)" by force
  show ?thesis
  proof (cases ok)
    case True
    with d assms(1) have
      "Parse out a h = Inr (True, h\<lparr>outputHandler := c, filteredKeyCount := st1\<rparr>)"
      by (simp add: passes_def)
    with d True assms(2) [of c] show ?thesis
      by (auto simp: passes_def Parse_append deliver_append split: prod.splits)
  next
    case False
    with d assms(1) show ?thesis
      by (auto simp: passes_def Parse_append deliver_append)
  qed
qed

lemma passes_Nil: "passes out [] [] h (filteredKeyCount h)"
  by (simp add: passes_def)

lemma passes_scalar:
  "filterValueDepth h = 0 \<Longrightarrow>
   passes out [scalar_event v] [scalar_event v] h (filteredKeyCount h)"
  by (cases v)
    (auto simp: passes_def scalar_method_def and_EndValue_def forward_def EndValue_def
      split: prod.splits)

lemma passes_StartObject:
  "filterValueDepth h = 0 \<Longrightarrow> passes out [StartObject] [StartObject] h (0 # filteredKeyCount h)"
  by (auto simp: passes_def forward_def split: prod.splits)

lemma passes_StartArray:
  "filterValueDepth h = 0 \<Longrightarrow> passes out [StartArray] [StartArray] h (filteredKeyCount h)"
  by (auto simp: passes_def forward_def split: prod.splits)

lemma passes_EndArray:
  "filterValueDepth h = 0 \<Longrightarrow> passes out [EndArray n] [EndArray n] h (filteredKeyCount h)"
  by (auto simp: passes_def forward_def and_EndValue_def EndValue_def split: prod.splits)

lemma passes_EndObject:
  "filterValueDepth h = 0 \<Longrightarrow> filteredKeyCount h = n # st \<Longrightarrow>
   passes out [EndObject m] [EndObject n] h st"
  by (auto simp: passes_def forward_def and_EndValue_def EndValue_def split: prod.splits)

lemma key_matches_iff:
  "(length str = keyLength h \<and> memcmp_eq0 str (keyString h) (length str)) = (str = keyString h)"
  by (auto simp: keyLength_def memcmp_eq0_def)

lemma passes_Key:
  "filterValueDepth h = 0 \<Longrightarrow> filteredKeyCount h = n # st \<Longrightarrow> k \<noteq> keyString h \<Longrightarrow>
   passes out [Key k c] [Key k c] h ((n + 1) # st)"
  by (auto simp: passes_def forward_def key_matches_iff split: prod.splits)

lemma depth_reset: "filterValueDepth h = 0 \<Longrightarrow> h\<lparr>filterValueDepth := 0\<rparr> = h"
  by (cases h) simp

lemma passes_suppressed_member:
  assumes "filterValueDepth h = 0" "height v < 2 ^ 32 - 1"
  shows "passes out (Key (keyString h) c # events_of v) [] h (filteredKeyCount h)"
proof -
  let ?h1 = "h\<lparr>filterValueDepth := 1\<rparr>"
  have "Parse out (events_of v) ?h1 = Inr (True, ?h1\<lparr>filterValueDepth := 0\<rparr>)"
    using Parse_suppressed(1) [of ?h1 v out] assms(2) by simp
  then show ?thesis
    using assms(1) by (simp add: passes_def key_matches_iff depth_reset)
qed

lemma passes_members:
  fixes h :: "'a FilterKeyHandler"
  assumes IH: "\<And>m n st. \<And>h :: 'a FilterKeyHandler. m \<in> set ms \<Longrightarrow> filterValueDepth h = 0 \<Longrightarrow>
      keyString h = key \<Longrightarrow> filteredKeyCount h = n # st \<Longrightarrow> member_fits key m \<Longrightarrow>
      passes out (member_events m)
        (if name m = key then [] else member_events (filter_member key m)) h
        ((if name m = key then n else n + 1) # st)"
    and fits: "list_all (member_fits key) ms"
    and h: "filterValueDepth h = 0" "keyString h = key" "filteredKeyCount h = n # st"
  shows "passes out
     (concat (map member_events ms))
     (concat (map member_events (map (filter_member key) (filter (\<lambda>m. name m \<noteq> key) ms))))
     h ((n + of_nat (length (filter (\<lambda>m. name m \<noteq> key) ms))) # st)"
  using assms
proof (induction ms arbitrary: h n)
  case Nil
  then show ?case using passes_Nil [of out h] by simp
next
  case (Cons m ms)
  let ?n1 = "if name m = key then n else n + 1"
  have a: "passes out (member_events m)
      (if name m = key then [] else member_events (filter_member key m)) h (?n1 # st)"
    using Cons.prems by simp
  have "passes out (member_events m @ concat (map member_events ms))
     ((if name m = key then [] else member_events (filter_member key m)) @
      concat (map member_events (map (filter_member key) (filter (\<lambda>m. name m \<noteq> key) ms))))
     h ((?n1 + of_nat (length (filter (\<lambda>m. name m \<noteq> key) ms))) # st)"
  proof (rule passes_append [OF a], rule Cons.IH)
    show "list_all (member_fits key) ms" using Cons.prems(2) by simp
  next
    fix m' n' st' and h' :: "'a FilterKeyHandler"
    assume "m' \<in> set ms" "filterValueDepth h' = 0" "keyString h' = key"
      "filteredKeyCount h' = n' # st'" "member_fits key m'"
    then show "passes out (member_events m')
        (if name m' = key then [] else member_events (filter_member key m')) h'
        ((if name m' = key then n' else n' + 1) # st')"
      using Cons.prems(1) [of m' h' n' st'] by simp
  qed (simp_all add: Cons.prems)
  then show ?case by (cases "name m = key") (simp_all add: ac_simps)
qed

lemma passes_elements:
  fixes h :: "'a FilterKeyHandler"
  assumes IH: "\<And>v. \<And>h :: 'a FilterKeyHandler. v \<in> set vs \<Longrightarrow> filterValueDepth h = 0 \<Longrightarrow>
      keyString h = key \<Longrightarrow> fits_depth key v \<Longrightarrow>
      passes out (events_of v) (events_of (filter_json key v)) h (filteredKeyCount h)"
    and fits: "list_all (fits_depth key) vs"
    and h: "filterValueDepth h = 0" "keyString h = key"
  shows "passes out (concat (map events_of vs))
     (concat (map events_of (map (filter_json key) vs))) h (filteredKeyCount h)"
  using assms
proof (induction vs arbitrary: h)
  case Nil
  then show ?case using passes_Nil [of out h] by simp
next
  case (Cons v vs)
  have a: "passes out (events_of v) (events_of (filter_json key v)) h (filteredKeyCount h)"
    using Cons.prems by simp
  have "passes out (events_of v @ concat (map events_of vs))
     (events_of (filter_json key v) @ concat (map events_of (map (filter_json key) vs)))
     h (filteredKeyCount h)"
  proof (rule passes_append [OF a])
    fix c
    let ?h = "h\<lparr>outputHandler := c, filteredKeyCount := filteredKeyCount h\<rparr>"
    have "passes out (concat (map events_of vs))
       (concat (map events_of (map (filter_json key) vs))) ?h (filteredKeyCount ?h)"
      using Cons.prems by (intro Cons.IH) simp_all
    then show "passes out (concat (map events_of vs))
       (concat (map events_of (map (filter_json key) vs))) ?h (filteredKeyCount h)"
      by simp
  qed
  then show ?case by simp
qed


lemma passes_value:
  fixes h h' :: "'a FilterKeyHandler"
  shows "filterValueDepth h = 0 \<Longrightarrow> keyString h = key \<Longrightarrow> fits_depth key t \<Longrightarrow>
      passes out (events_of t) (events_of (filter_json key t)) h (filteredKeyCount h)"
    and "filterValueDepth h' = 0 \<Longrightarrow> keyString h' = key \<Longrightarrow> filteredKeyCount h' = n # st \<Longrightarrow>
      member_fits key m \<Longrightarrow>
      passes out (member_events m)
        (if name m = key then [] else member_events (filter_member key m)) h'
        ((if name m = key then n else n + 1) # st)"
proof (induction t and m arbitrary: h and h' n st)
  case (Scalar v)
  then show ?case using passes_scalar [of h out v] by simp
next
  case (Object ms)
  let ?f = "filter (\<lambda>m. name m \<noteq> key) ms"
  let ?st = "filteredKeyCount h"
  have "passes out ([StartObject] @ concat (map member_events ms) @
       [EndObject (of_nat (length ms))])
     ([StartObject] @ concat (map member_events (map (filter_member key) ?f)) @
       [EndObject (of_nat (length ?f))]) h ?st"
  proof (rule passes_append [OF passes_StartObject [OF Object.prems(1)]], rule passes_append)
    fix c1
    show "passes out (concat (map member_events ms))
       (concat (map member_events (map (filter_member key) ?f)))
       (h\<lparr>outputHandler := c1, filteredKeyCount := 0 # ?st\<rparr>)
       ((0 + of_nat (length ?f)) # ?st)"
    proof (rule passes_members)
      show "list_all (member_fits key) ms" using Object.prems(3) by simp
    next
      fix m n' st' and h'' :: "'a FilterKeyHandler"
      assume "m \<in> set ms" "filterValueDepth h'' = 0" "keyString h'' = key"
        "filteredKeyCount h'' = n' # st'" "member_fits key m"
      then show "passes out (member_events m)
          (if name m = key then [] else member_events (filter_member key m)) h''
          ((if name m = key then n' else n' + 1) # st')"
        by (rule Object.IH)
    qed (simp_all add: Object.prems)
  next
    fix c1 c2
    show "passes out [EndObject (of_nat (length ms))] [EndObject (of_nat (length ?f))]
       (h\<lparr>outputHandler := c1, filteredKeyCount := 0 # ?st,
          outputHandler := c2, filteredKeyCount := (0 + of_nat (length ?f)) # ?st\<rparr>) ?st"
      by (rule passes_EndObject) (simp_all add: Object.prems)
  qed
  then show ?case by simp
next
  case (Array vs)
  let ?st = "filteredKeyCount h"
  have "passes out ([StartArray] @ concat (map events_of vs) @
       [EndArray (of_nat (length vs))])
     ([StartArray] @ concat (map events_of (map (filter_json key) vs)) @
       [EndArray (of_nat (length vs))]) h ?st"
  proof (rule passes_append [OF passes_StartArray [OF Array.prems(1)]], rule passes_append)
    fix c1
    let ?h = "h\<lparr>outputHandler := c1, filteredKeyCount := ?st\<rparr>"
    have "passes out (concat (map events_of vs))
       (concat (map events_of (map (filter_json key) vs))) ?h (filteredKeyCount ?h)"
    proof (rule passes_elements)
      show "list_all (fits_depth key) vs" using Array.prems(3) by simp
    next
      fix v and h'' :: "'a FilterKeyHandler"
      assume "v \<in> set vs" "filterValueDepth h'' = 0" "keyString h'' = key"
        "fits_depth key v"
      then show "passes out (events_of v) (events_of (filter_json key v)) h''
          (filteredKeyCount h'')"
        by (rule Array.IH)
    qed (simp_all add: Array.prems)
    then show "passes out (concat (map events_of vs))
       (concat (map events_of (map (filter_json key) vs))) ?h ?st"
      by simp
  next
    fix c1 c2
    let ?h = "h\<lparr>outputHandler := c1, filteredKeyCount := ?st,
          outputHandler := c2, filteredKeyCount := ?st\<rparr>"
    have "passes out [EndArray (of_nat (length vs))] [EndArray (of_nat (length vs))]
       ?h (filteredKeyCount ?h)"
      by (rule passes_EndArray) (simp add: Array.prems)
    then show "passes out [EndArray (of_nat (length vs))] [EndArray (of_nat (length vs))]
       ?h ?st"
      by simp
  qed
  then show ?case by simp
next
  case (Member k c v)
  show ?case
  proof (cases "k = key")
    case True
    then show ?thesis
      using passes_suppressed_member [of h' v out c] Member.prems by simp
  next
    case False
    have a: "passes out [Key k c] [Key k c] h' ((n + 1) # st)"
      using passes_Key [of h' n st k out c] Member.prems False by simp
    have "passes out ([Key k c] @ events_of v) ([Key k c] @ events_of (filter_json key v))
        h' ((n + 1) # st)"
    proof (rule passes_append [OF a])
      fix c1
      let ?h = "h'\<lparr>outputHandler := c1, filteredKeyCount := (n + 1) # st\<rparr>"
      have "passes out (events_of v) (events_of (filter_json key v)) ?h (filteredKeyCount ?h)"
        using Member.prems False by (intro Member.IH) simp_all
      then show "passes out (events_of v) (events_of (filter_json key v)) ?h ((n + 1) # st)"
        by simp
    qed
    then show ?thesis using False by simp
  qed
qed

lemma deliver_recorder_all: "deliver (recorder accept_all) es log = (True, log @ es)"
  by (induction es arbitrary: log) (simp_all add: recorder_def accept_all_def)

lemma no_key_filter:
  shows "(\<forall>copy. Key key copy \<notin> set (events_of t)) \<Longrightarrow>
      filter_json key t = t \<and> fits_depth key t"
    and "(\<forall>copy. Key key copy \<notin> set (member_events m)) \<Longrightarrow>
      name m \<noteq> key \<and> filter_member key m = m \<and> member_fits key m"
proof (induction t and m)
  case (Scalar v)
  show ?case by simp
next
  case (Object ms)
  have "name m \<noteq> key \<and> filter_member key m = m \<and> member_fits key m" if "m \<in> set ms" for m
    using Object.IH [OF that] Object.prems that by auto
  then show ?case by (simp add: list_all_iff map_idI)
next
  case (Array vs)
  have "filter_json key v = v \<and> fits_depth key v" if "v \<in> set vs" for v
    using Array.IH [OF that] Array.prems that by auto
  then show ?case by (simp add: list_all_iff map_idI)
next
  case (Member k c v)
  then show ?case by auto
qed

lemma passes_view:
  "passes out ins outs h st \<Longrightarrow>
   consumer_view (Parse out ins h) = Some (deliver out outs (outputHandler h))"
  by (auto simp: passes_def consumer_view_def split: prod.splits if_splits)

lemma new_fields [simp]:
  "filterValueDepth (FilterKeyHandler_new c key) = 0"
  "keyString (FilterKeyHandler_new c key) = key"
  "filteredKeyCount (FilterKeyHandler_new c key) = []"
  "outputHandler (FilterKeyHandler_new c key) = c"
  by (simp_all add: FilterKeyHandler_new_def)

subsection \<open>Prefixes of a well-formed stream\<close>






lemma events_of_nest:
  "events_of (nest n t) = replicate n StartArray @ events_of t @ replicate n (EndArray 1)"
proof (induction n)
  case 0
  show ?case by simp
next
  case (Suc n)
  have "replicate n (EndArray 1) @ [EndArray 1] = EndArray 1 # replicate n (EndArray 1)"
    by (simp add: replicate_append_same)
  with Suc show ?case by simp
qed

lemma Parse_StartArrays:
  "filterValueDepth h \<noteq> 0 \<Longrightarrow> unat (filterValueDepth h) + n < 2 ^ 32 \<Longrightarrow>
   Parse out (replicate n StartArray @ rest) h =
     Parse out rest (h\<lparr>filterValueDepth := filterValueDepth h + of_nat n\<rparr>)"
proof (induction n arbitrary: h)
  case 0
  then show ?case by simp
next
  case (Suc n)
  let ?h1 = "h\<lparr>filterValueDepth := filterValueDepth h + 1\<rparr>"
  have b: "unat (filterValueDepth h) + 1 < 2 ^ 32" using Suc.prems(2) by simp
  note w = word32_succ [OF Suc.prems(1) b]
  have "Parse out (replicate n StartArray @ rest) ?h1 =
      Parse out rest (?h1\<lparr>filterValueDepth := filterValueDepth ?h1 + of_nat n\<rparr>)"
    using Suc.prems(2) w by (intro Suc.IH) simp_all
  then show ?case using Suc.prems(1) by (simp add: word_gt_0 add.assoc)
qed



subsection \<open>The handler stays in step with the position in the input\<close>

text \<open>
  On a stream that fits, after every prefix the consumer has not rejected, the stack and
  the depth of the handler agree with the position read from the input (\<open>in_step\<close>).
  The proof follows the document: a suppressed value first, where the depth is the
  depth at its start plus the number of containers open inside it, then a forwarded
  value, whose members named by the filter key are suppressed values.
\<close>

lemma track_run_simps [simp]:
  "track_run key [] s = s"
  "track_run key (e # es) s = track_run key es (track key e s)"
  by (simp_all add: track_run_def)

lemma track_run_append: "track_run key (a @ b) s = track_run key b (track_run key a s)"
  by (simp add: track_run_def)

lemma track_scalar: "track key (scalar_event v) (p, fs) = (False, fs)"
  by (cases v) simp_all

lemma track_run_concat_same:
  "(\<And>x. x \<in> set xs \<Longrightarrow> track_run key (f x) s = s) \<Longrightarrow>
   track_run key (concat (map f xs)) s = s"
  by (induction xs) (simp_all add: track_run_append)

lemma track_run_value:
  shows "track_run key (events_of t) (p, fs) = (False, fs)"
    and "track_run key (member_events m) (p', fs') = (False, fs')"
proof (induction t and m arbitrary: p fs and p' fs')
  case (Scalar v)
  show ?case by (simp add: track_scalar)
next
  case (Object ms)
  have "track_run key (concat (map member_events ms)) (False, Frame True (p \<or> inside fs) # fs) =
      (False, Frame True (p \<or> inside fs) # fs)"
    by (rule track_run_concat_same) (rule Object.IH)
  then show ?case by (simp add: track_run_append)
next
  case (Array vs)
  have "track_run key (concat (map events_of vs)) (False, Frame False (p \<or> inside fs) # fs) =
      (False, Frame False (p \<or> inside fs) # fs)"
    by (rule track_run_concat_same) (rule Array.IH)
  then show ?case by (simp add: track_run_append)
next
  case (Member k c v)
  show ?case by (simp add: Member.IH)
qed

lemma always_Nil: "always out key P [] h s = P h s"
  by (simp add: always_def)

lemma always_Cons:
  "always out key P (e # es) h s =
     (P h s \<and> (\<forall>h'. FilterKeyHandler_call out e h = Inr (True, h') \<longrightarrow>
                 always out key P es h' (track key e s)))"
proof
  assume a: "always out key P (e # es) h s"
  have "prefix [] (e # es) \<and> Parse out [] h = Inr (True, h)" by simp
  then have "P h (track_run key [] s)" using a unfolding always_def by blast
  then have "P h s" by simp
  moreover have "always out key P es h' (track key e s)"
    if c: "FilterKeyHandler_call out e h = Inr (True, h')" for h'
    unfolding always_def
  proof (intro allI impI)
    fix pre g
    assume p: "prefix pre es \<and> Parse out pre h' = Inr (True, g)"
    then have "prefix (e # pre) (e # es)" "Parse out (e # pre) h = Inr (True, g)"
      using c by simp_all
    then have "P g (track_run key (e # pre) s)"
      using a unfolding always_def by blast
    then show "P g (track_run key pre (track key e s))" by simp
  qed
  ultimately show "P h s \<and> (\<forall>h'. FilterKeyHandler_call out e h = Inr (True, h') \<longrightarrow>
                 always out key P es h' (track key e s))"
    by blast
next
  assume b: "P h s \<and> (\<forall>h'. FilterKeyHandler_call out e h = Inr (True, h') \<longrightarrow>
                 always out key P es h' (track key e s))"
  show "always out key P (e # es) h s"
    unfolding always_def
  proof (intro allI impI)
    fix pre g
    assume p: "prefix pre (e # es) \<and> Parse out pre h = Inr (True, g)"
    show "P g (track_run key pre s)"
    proof (cases pre)
      case Nil
      with p b show ?thesis by simp
    next
      case (Cons x pre')
      with p have x: "x = e" "prefix pre' es" by simp_all
      from p Cons x obtain h1 where
        h1: "FilterKeyHandler_call out e h = Inr (True, h1)" "Parse out pre' h1 = Inr (True, g)"
        by (auto split: sum.splits if_splits)
      then have "always out key P es h1 (track key e s)" using b by blast
      then have "P g (track_run key pre' (track key e s))"
        using x(2) h1(2) unfolding always_def by blast
      then show ?thesis using Cons x by simp
    qed
  qed
qed

lemma Parse_append_True:
  "Parse out (a @ b) h = Inr (True, h') =
     (\<exists>h1. Parse out a h = Inr (True, h1) \<and> Parse out b h1 = Inr (True, h'))"
  by (cases "Parse out a h") (auto simp: Parse_append split: if_splits)

lemma always_append:
  "always out key P a h s \<Longrightarrow>
   (\<And>h'. Parse out a h = Inr (True, h') \<Longrightarrow> always out key P b h' (track_run key a s)) \<Longrightarrow>
   always out key P (a @ b) h s"
proof (induction a arbitrary: h s)
  case Nil
  then show ?case by simp
next
  case (Cons e a)
  have "P h s" using Cons.prems(1) by (simp add: always_Cons)
  moreover have "always out key P (a @ b) h1 (track key e s)"
    if c: "FilterKeyHandler_call out e h = Inr (True, h1)" for h1
  proof (rule Cons.IH)
    show "always out key P a h1 (track key e s)"
      using Cons.prems(1) c by (simp add: always_Cons)
  next
    fix h'
    assume "Parse out a h1 = Inr (True, h')"
    then have "Parse out (e # a) h = Inr (True, h')" using c by simp
    from Cons.prems(2) [OF this]
    show "always out key P b h' (track_run key a (track key e s))" by simp
  qed
  ultimately show ?case by (simp add: always_Cons)
qed

lemma always_concat:
  assumes "\<And>x h s. x \<in> set xs \<Longrightarrow> I h s \<Longrightarrow> always out key P (f x) h s"
    and "\<And>x h s h'. x \<in> set xs \<Longrightarrow> I h s \<Longrightarrow> Parse out (f x) h = Inr (True, h') \<Longrightarrow>
           I h' (track_run key (f x) s)"
    and "\<And>h s. I h s \<Longrightarrow> P h s"
    and "I h s"
  shows "always out key P (concat (map f xs)) h s \<and>
         (\<forall>h'. Parse out (concat (map f xs)) h = Inr (True, h') \<longrightarrow>
            I h' (track_run key (concat (map f xs)) s))"
  using assms
proof (induction xs arbitrary: h s)
  case Nil
  then show ?case by (simp add: always_Nil)
next
  case (Cons x xs)
  have step: "always out key P (concat (map f xs)) h1 (track_run key (f x) s) \<and>
         (\<forall>h'. Parse out (concat (map f xs)) h1 = Inr (True, h') \<longrightarrow>
            I h' (track_run key (concat (map f xs)) (track_run key (f x) s)))"
    if p: "Parse out (f x) h = Inr (True, h1)" for h1
  proof (rule Cons.IH)
    show "I h1 (track_run key (f x) s)"
      using Cons.prems(2) [of x h s h1] Cons.prems(4) p by simp
  qed (use Cons.prems in auto)
  have "always out key P (f x @ concat (map f xs)) h s"
  proof (rule always_append)
    show "always out key P (f x) h s" using Cons.prems(1,4) by simp
  qed (use step in blast)
  moreover have "I h' (track_run key (f x @ concat (map f xs)) s)"
    if "Parse out (f x @ concat (map f xs)) h = Inr (True, h')" for h'
    using that step by (auto simp: Parse_append_True track_run_append)
  ultimately show ?case by simp
qed

lemma call_scalar_suppressed:
  "filterValueDepth h \<noteq> 0 \<Longrightarrow>
   FilterKeyHandler_call out (scalar_event v) h = Inr (EndValue h)"
  by (cases v) (simp_all add: scalar_method_def word_gt_0)

lemma in_step_EndValue:
  "filterValueDepth g \<noteq> 0 \<Longrightarrow> (filterValueDepth g = 1) = (\<not> inside fs) \<Longrightarrow>
   length (filteredKeyCount g) = open_count fs \<Longrightarrow>
   EndValue g = (ok, g') \<Longrightarrow> in_step g' (False, fs)"
  by (auto simp: in_step_def EndValue_def split: if_splits)

lemma in_step_entry:
  "filterValueDepth h \<noteq> 0 \<Longrightarrow> p \<or> inside fs \<Longrightarrow>
   length (filteredKeyCount h) = open_count fs \<Longrightarrow> in_step h (p, fs)"
  by (auto simp: in_step_def)

lemma open_count_suppressed [simp]: "open_count (Frame b True # fs) = open_count fs"
  by (simp add: open_count_def)

lemma open_count_array [simp]: "open_count (Frame False b # fs) = open_count fs"
  by (simp add: open_count_def)

lemma open_count_object [simp]: "open_count (Frame True False # fs) = Suc (open_count fs)"
  by (simp add: open_count_def)

lemma inside_Cons [simp]: "inside (Frame b c # fs) = c"
  by (simp add: inside_def)

lemma always_container_suppressed:
  fixes h :: "'a FilterKeyHandler"
  assumes nz: "filterValueDepth h \<noteq> 0"
    and bound: "unat (filterValueDepth h) + 1 < 2 ^ 32"
    and sup: "p \<or> inside fs"
    and one: "(filterValueDepth h = 1) = (\<not> inside fs)"
    and len: "length (filteredKeyCount h) = open_count fs"
    and start: "FilterKeyHandler_call out start h =
        Inr (True, h\<lparr>filterValueDepth := filterValueDepth h + 1\<rparr>)"
      "track key start (p, fs) = (False, Frame b True # fs)"
    and stop: "FilterKeyHandler_call out stop (h\<lparr>filterValueDepth := filterValueDepth h + 1\<rparr>) =
        Inr (EndValue h)"
      "track key stop (False, Frame b True # fs) = (False, fs)"
    and inner: "\<And>x. x \<in> set xs \<Longrightarrow>
        always out key in_step (f x) (h\<lparr>filterValueDepth := filterValueDepth h + 1\<rparr>)
          (False, Frame b True # fs)"
    and same: "\<And>x h'. x \<in> set xs \<Longrightarrow>
        Parse out (f x) (h\<lparr>filterValueDepth := filterValueDepth h + 1\<rparr>) = Inr (True, h') \<Longrightarrow>
        h' = h\<lparr>filterValueDepth := filterValueDepth h + 1\<rparr>"
    and same_track: "\<And>x. x \<in> set xs \<Longrightarrow>
        track_run key (f x) (False, Frame b True # fs) = (False, Frame b True # fs)"
  shows "always out key in_step (start # concat (map f xs) @ [stop]) h (p, fs)"
proof -
  let ?h1 = "h\<lparr>filterValueDepth := filterValueDepth h + 1\<rparr>"
  let ?s1 = "(False, Frame b True # fs)"
  note w = word32_succ [OF nz bound]
  have e1: "in_step ?h1 ?s1" using len w by (simp add: in_step_def)
  have body: "always out key in_step (concat (map f xs)) ?h1 ?s1 \<and>
         (\<forall>h'. Parse out (concat (map f xs)) ?h1 = Inr (True, h') \<longrightarrow>
            (h' = ?h1 \<and> track_run key (concat (map f xs)) ?s1 = ?s1))"
    by (rule always_concat [where I = "\<lambda>g s. g = ?h1 \<and> s = ?s1"])
      (use inner same same_track e1 in auto)
  have last: "always out key in_step [stop] ?h1 ?s1"
  proof -
    have "in_step g' (False, fs)" if "EndValue h = (True, g')" for g'
      using in_step_EndValue [OF nz one len that] .
    then show ?thesis using e1 stop by (auto simp: always_Cons always_Nil)
  qed
  have "always out key in_step (concat (map f xs) @ [stop]) ?h1 ?s1"
  proof (rule always_append)
    show "always out key in_step (concat (map f xs)) ?h1 ?s1" using body by blast
  next
    fix h'
    assume "Parse out (concat (map f xs)) ?h1 = Inr (True, h')"
    then have "h' = ?h1" "track_run key (concat (map f xs)) ?s1 = ?s1"
      using body by blast+
    then show "always out key in_step [stop] h' (track_run key (concat (map f xs)) ?s1)"
      using last by simp
  qed
  then show ?thesis
    using in_step_entry [OF nz sup len] start by (simp add: always_Cons)
qed

lemma always_suppressed:
  fixes h h' :: "'a FilterKeyHandler"
  shows "filterValueDepth h \<noteq> 0 \<Longrightarrow> unat (filterValueDepth h) + height t < 2 ^ 32 \<Longrightarrow>
      p \<or> inside fs \<Longrightarrow> (filterValueDepth h = 1) = (\<not> inside fs) \<Longrightarrow>
      length (filteredKeyCount h) = open_count fs \<Longrightarrow>
      always out key in_step (events_of t) h (p, fs)"
    and "filterValueDepth h' \<noteq> 0 \<Longrightarrow> filterValueDepth h' \<noteq> 1 \<Longrightarrow>
      unat (filterValueDepth h') + member_height m < 2 ^ 32 \<Longrightarrow> inside fs' \<Longrightarrow>
      length (filteredKeyCount h') = open_count fs' \<Longrightarrow>
      always out key in_step (member_events m) h' (False, fs')"
proof (induction t and m arbitrary: h p fs and h' fs')
  case (Scalar v)
  have "in_step g' (False, fs)" if "EndValue h = (True, g')" for g'
    using in_step_EndValue [OF Scalar(1,4,5) that] .
  then show ?case
    using in_step_entry [OF Scalar(1,3,5)] Scalar(1)
    by (auto simp: always_Cons always_Nil call_scalar_suppressed track_scalar)
next
  case (Object ms)
  let ?h1 = "h\<lparr>filterValueDepth := filterValueDepth h + 1\<rparr>"
  have b: "unat (filterValueDepth h) + 1 < 2 ^ 32" using Object.prems(2) by simp
  note w = word32_succ [OF Object.prems(1) b]
  have "always out key in_step
      (StartObject # concat (map member_events ms) @ [EndObject (of_nat (length ms))]) h (p, fs)"
  proof (rule always_container_suppressed [OF Object.prems(1) b Object.prems(3,4,5),
        where b = True])
    show "FilterKeyHandler_call out StartObject h = Inr (True, ?h1)"
      using Object.prems(1) by (simp add: word_gt_0)
    show "track key StartObject (p, fs) = (False, Frame True True # fs)"
      using Object.prems(3) by simp
    show "FilterKeyHandler_call out (EndObject (of_nat (length ms))) ?h1 = Inr (EndValue h)"
      using w by simp
    show "track key (EndObject (of_nat (length ms))) (False, Frame True True # fs) = (False, fs)"
      by simp
  next
    fix m assume m: "m \<in> set ms"
    have mb: "unat (filterValueDepth ?h1) + member_height m < 2 ^ 32"
      using Object.prems(2) height_Object [OF m] w(4) by simp
    show "always out key in_step (member_events m) ?h1 (False, Frame True True # fs)"
      using mb w Object.prems(5) by (intro Object.IH [OF m]) simp_all
    show "track_run key (member_events m) (False, Frame True True # fs) =
        (False, Frame True True # fs)"
      by (rule track_run_value(2))
    fix g assume "Parse out (member_events m) ?h1 = Inr (True, g)"
    then show "g = ?h1"
      using Parse_suppressed(2) [of ?h1 m out] mb w by simp
  qed
  then show ?case by simp
next
  case (Array vs)
  let ?h1 = "h\<lparr>filterValueDepth := filterValueDepth h + 1\<rparr>"
  have b: "unat (filterValueDepth h) + 1 < 2 ^ 32" using Array.prems(2) by simp
  note w = word32_succ [OF Array.prems(1) b]
  have "always out key in_step
      (StartArray # concat (map events_of vs) @ [EndArray (of_nat (length vs))]) h (p, fs)"
  proof (rule always_container_suppressed [OF Array.prems(1) b Array.prems(3,4,5),
        where b = False])
    show "FilterKeyHandler_call out StartArray h = Inr (True, ?h1)"
      using Array.prems(1) by (simp add: word_gt_0)
    show "track key StartArray (p, fs) = (False, Frame False True # fs)"
      using Array.prems(3) by simp
    show "FilterKeyHandler_call out (EndArray (of_nat (length vs))) ?h1 = Inr (EndValue h)"
      using w by simp
    show "track key (EndArray (of_nat (length vs))) (False, Frame False True # fs) = (False, fs)"
      by simp
  next
    fix v assume v: "v \<in> set vs"
    have vb: "unat (filterValueDepth ?h1) + height v < 2 ^ 32"
      using Array.prems(2) height_Array [OF v] w(4) by simp
    show "always out key in_step (events_of v) ?h1 (False, Frame False True # fs)"
      using vb w Array.prems(5) by (intro Array.IH [OF v]) simp_all
    show "track_run key (events_of v) (False, Frame False True # fs) =
        (False, Frame False True # fs)"
      by (rule track_run_value(1))
    fix g assume "Parse out (events_of v) ?h1 = Inr (True, g)"
    then show "g = ?h1"
      using Parse_suppressed(1) [of ?h1 v out] vb w by simp
  qed
  then show ?case by simp
next
  case (Member k c v)
  have "always out key in_step (events_of v) h' (False, fs')"
    using Member.prems by (intro Member.IH) simp_all
  moreover have "in_step h' (False, fs')"
    using Member.prems by (simp add: in_step_def)
  ultimately show ?case
    using Member.prems(1,4) by (simp add: always_Cons word_gt_0)
qed

lemma passes_True:
  "passes out ins outs h st \<Longrightarrow> Parse out ins h = Inr (True, h') \<Longrightarrow>
   \<exists>c. h' = h\<lparr>outputHandler := c, filteredKeyCount := st\<rparr>"
  by (auto simp: passes_def split: prod.splits if_splits)

lemma value_end:
  assumes "filterValueDepth h = 0" "keyString h = key" "fits_depth key t"
    "Parse out (events_of t) h = Inr (True, h')"
  shows "filterValueDepth h' = 0 \<and> keyString h' = key \<and>
         filteredKeyCount h' = filteredKeyCount h"
  using passes_True [OF passes_value(1) [OF assms(1,2,3)] assms(4)] assms(1,2) by auto

lemma member_end:
  assumes "filterValueDepth h = 0" "keyString h = key" "member_fits key m"
    "Parse out (member_events m) h = Inr (True, h')"
  shows "filterValueDepth h' = 0 \<and> keyString h' = key \<and>
         length (filteredKeyCount h') = length (filteredKeyCount h)"
proof (cases m)
  case (Member k c v)
  show ?thesis
  proof (cases "k = key")
    case True
    have "passes out (Key (keyString h) c # events_of v) [] h (filteredKeyCount h)"
      using assms(1,3) Member True by (intro passes_suppressed_member) simp_all
    from passes_True [OF this] assms Member True show ?thesis by auto
  next
    case False
    show ?thesis
    proof (cases "filteredKeyCount h")
      case Nil
      have "k \<noteq> keyString h" using False assms(2) by simp
      then have "FilterKeyHandler_call out (Key k c) h = Inl EmptyStack"
        using assms(1) Nil by (simp add: key_matches_iff)
      then have "Parse out (member_events m) h = Inl EmptyStack"
        using Member by simp
      with assms(4) show ?thesis by simp
    next
      case (Cons n st)
      from passes_True [OF passes_value(2) [OF assms(1,2) Cons assms(3)] assms(4)]
      show ?thesis using assms(1,2) Cons Member False by auto
    qed
  qed
qed

lemma call_scalar_forwarded:
  "filterValueDepth h = 0 \<Longrightarrow> FilterKeyHandler_call out (scalar_event v) h = Inr (True, h') \<Longrightarrow>
   filterValueDepth h' = 0 \<and> filteredKeyCount h' = filteredKeyCount h"
  by (cases v)
    (auto simp: scalar_method_def forward_def and_EndValue_def EndValue_def
      split: prod.splits if_splits)

lemma always_container_forwarded:
  fixes h :: "'a FilterKeyHandler"
  assumes d0: "filterValueDepth h = 0" and k: "keyString h = key"
    and out: "\<not> inside fs" and len: "length (filteredKeyCount h) = open_count fs"
    and start: "\<And>h1. FilterKeyHandler_call out start h = Inr (True, h1) \<Longrightarrow>
        filterValueDepth h1 = 0 \<and> keyString h1 = key \<and>
        length (filteredKeyCount h1) = open_count (Frame b False # fs)"
      "track key start (False, fs) = (False, Frame b False # fs)"
    and stop: "\<And>g g'. filterValueDepth g = 0 \<Longrightarrow>
        length (filteredKeyCount g) = open_count (Frame b False # fs) \<Longrightarrow>
        FilterKeyHandler_call out stop g = Inr (True, g') \<Longrightarrow>
        filterValueDepth g' = 0 \<and> length (filteredKeyCount g') = open_count fs"
      "track key stop (False, Frame b False # fs) = (False, fs)"
    and inner: "\<And>x. \<And>g :: 'a FilterKeyHandler. x \<in> set xs \<Longrightarrow> filterValueDepth g = 0 \<Longrightarrow>
        keyString g = key \<Longrightarrow>
        length (filteredKeyCount g) = open_count (Frame b False # fs) \<Longrightarrow>
        always out key in_step (f x) g (False, Frame b False # fs)"
    and ends: "\<And>x g g'. x \<in> set xs \<Longrightarrow> filterValueDepth g = 0 \<Longrightarrow> keyString g = key \<Longrightarrow>
        Parse out (f x) g = Inr (True, g') \<Longrightarrow>
        filterValueDepth g' = 0 \<and> keyString g' = key \<and>
        length (filteredKeyCount g') = length (filteredKeyCount g)"
    and same_track: "\<And>x. x \<in> set xs \<Longrightarrow>
        track_run key (f x) (False, Frame b False # fs) = (False, Frame b False # fs)"
  shows "always out key in_step (start # concat (map f xs) @ [stop]) h (False, fs)"
proof -
  let ?s1 = "(False, Frame b False # fs)"
  let ?I = "\<lambda>(g :: 'a FilterKeyHandler) s. filterValueDepth g = 0 \<and> keyString g = key \<and>
      length (filteredKeyCount g) = open_count (Frame b False # fs) \<and> s = ?s1"
  have e0: "in_step h (False, fs)" using d0 out len by (simp add: in_step_def)
  have after: "always out key in_step (concat (map f xs) @ [stop]) h1 ?s1"
    if c: "FilterKeyHandler_call out start h = Inr (True, h1)" for h1
  proof -
    have i1: "?I h1 ?s1" using start(1) [OF c] by simp
    have body: "always out key in_step (concat (map f xs)) h1 ?s1 \<and>
         (\<forall>h'. Parse out (concat (map f xs)) h1 = Inr (True, h') \<longrightarrow>
            ?I h' (track_run key (concat (map f xs)) ?s1))"
    proof (rule always_concat [where I = ?I])
      fix x and g :: "'a FilterKeyHandler" and s
      assume x: "x \<in> set xs" and i: "?I g s"
      show "always out key in_step (f x) g s"
        using inner [OF x, of g] i by simp
    next
      fix x and g g' :: "'a FilterKeyHandler" and s
      assume x: "x \<in> set xs" and i: "?I g s"
        and "Parse out (f x) g = Inr (True, g')"
      then show "?I g' (track_run key (f x) s)"
        using ends [OF x, of g g'] same_track [OF x] i by simp
    next
      fix g :: "'a FilterKeyHandler" and s
      assume "?I g s"
      then show "in_step g s" by (simp add: in_step_def)
    next
      show "?I h1 ?s1" by (rule i1)
    qed
    show ?thesis
    proof (rule always_append)
      show "always out key in_step (concat (map f xs)) h1 ?s1" using body by blast
    next
      fix h'
      assume "Parse out (concat (map f xs)) h1 = Inr (True, h')"
      then have i: "?I h' (track_run key (concat (map f xs)) ?s1)" using body by blast
      have "in_step g' (False, fs)"
        if "FilterKeyHandler_call out stop h' = Inr (True, g')" for g'
        using stop(1) [OF _ _ that] i out by (simp add: in_step_def)
      then show "always out key in_step [stop] h' (track_run key (concat (map f xs)) ?s1)"
        using i stop(2) by (auto simp: always_Cons always_Nil in_step_def)
    qed
  qed
  show ?thesis
    using e0 after start(2) by (simp add: always_Cons)
qed

lemma key_matches_key:
  "keyString h = key \<Longrightarrow>
   (length str = keyLength h \<and> memcmp_eq0 str key (length str)) = (str = key)"
  using key_matches_iff [of str h] by simp

lemma always_forwarded:
  fixes h h' :: "'a FilterKeyHandler"
  shows "filterValueDepth h = 0 \<Longrightarrow> keyString h = key \<Longrightarrow> fits_depth key t \<Longrightarrow>
      \<not> inside fs \<Longrightarrow> length (filteredKeyCount h) = open_count fs \<Longrightarrow>
      always out key in_step (events_of t) h (False, fs)"
    and "filterValueDepth h' = 0 \<Longrightarrow> keyString h' = key \<Longrightarrow> member_fits key m \<Longrightarrow>
      \<not> inside fs' \<Longrightarrow> length (filteredKeyCount h') = open_count fs' \<Longrightarrow>
      always out key in_step (member_events m) h' (False, fs')"
proof (induction t and m arbitrary: h fs and h' fs')
  case (Scalar v)
  have "in_step h (False, fs)" using Scalar by (simp add: in_step_def)
  moreover have "in_step g (False, fs)"
    if "FilterKeyHandler_call out (scalar_event v) h = Inr (True, g)" for g
    using call_scalar_forwarded [OF Scalar(1) that] Scalar(4,5) by (simp add: in_step_def)
  ultimately show ?case by (simp add: always_Cons always_Nil track_scalar)
next
  case (Object ms)
  have "always out key in_step
      (StartObject # concat (map member_events ms) @ [EndObject (of_nat (length ms))])
      h (False, fs)"
  proof (rule always_container_forwarded [OF Object.prems(1,2,4,5), where b = True])
    fix h1
    assume "FilterKeyHandler_call out StartObject h = Inr (True, h1)"
    then show "filterValueDepth h1 = 0 \<and> keyString h1 = key \<and>
        length (filteredKeyCount h1) = open_count (Frame True False # fs)"
      using Object.prems(1,2,5) by (auto simp: forward_def split: prod.splits)
  next
    show "track key StartObject (False, fs) = (False, Frame True False # fs)"
      using Object.prems(4) by simp
  next
    fix g g' :: "'a FilterKeyHandler"
    assume "filterValueDepth g = 0"
      "length (filteredKeyCount g) = open_count (Frame True False # fs)"
      "FilterKeyHandler_call out (EndObject (of_nat (length ms))) g = Inr (True, g')"
    then show "filterValueDepth g' = 0 \<and> length (filteredKeyCount g') = open_count fs"
      by (auto simp: forward_def and_EndValue_def EndValue_def
          split: prod.splits if_splits list.splits)
  next
    show "track key (EndObject (of_nat (length ms))) (False, Frame True False # fs) = (False, fs)"
      by simp
  next
    fix m and g :: "'a FilterKeyHandler"
    assume m: "m \<in> set ms" and g: "filterValueDepth g = 0" "keyString g = key"
      "length (filteredKeyCount g) = open_count (Frame True False # fs)"
    have "member_fits key m" using Object.prems(3) m by (simp add: list_all_iff)
    then show "always out key in_step (member_events m) g (False, Frame True False # fs)"
      using g by (intro Object.IH [OF m]) simp_all
  next
    fix m and g g' :: "'a FilterKeyHandler"
    assume m: "m \<in> set ms" and g: "filterValueDepth g = 0" "keyString g = key"
      "Parse out (member_events m) g = Inr (True, g')"
    have "member_fits key m" using Object.prems(3) m by (simp add: list_all_iff)
    from member_end [OF g(1,2) this g(3)]
    show "filterValueDepth g' = 0 \<and> keyString g' = key \<and>
        length (filteredKeyCount g') = length (filteredKeyCount g)" .
  next
    fix m assume "m \<in> set ms"
    show "track_run key (member_events m) (False, Frame True False # fs) =
        (False, Frame True False # fs)"
      by (rule track_run_value(2))
  qed
  then show ?case by simp
next
  case (Array vs)
  have "always out key in_step
      (StartArray # concat (map events_of vs) @ [EndArray (of_nat (length vs))])
      h (False, fs)"
  proof (rule always_container_forwarded [OF Array.prems(1,2,4,5), where b = False])
    fix h1
    assume "FilterKeyHandler_call out StartArray h = Inr (True, h1)"
    then show "filterValueDepth h1 = 0 \<and> keyString h1 = key \<and>
        length (filteredKeyCount h1) = open_count (Frame False False # fs)"
      using Array.prems(1,2,5) by (auto simp: forward_def split: prod.splits)
  next
    show "track key StartArray (False, fs) = (False, Frame False False # fs)"
      using Array.prems(4) by simp
  next
    fix g g' :: "'a FilterKeyHandler"
    assume "filterValueDepth g = 0"
      "length (filteredKeyCount g) = open_count (Frame False False # fs)"
      "FilterKeyHandler_call out (EndArray (of_nat (length vs))) g = Inr (True, g')"
    then show "filterValueDepth g' = 0 \<and> length (filteredKeyCount g') = open_count fs"
      by (auto simp: forward_def and_EndValue_def EndValue_def
          split: prod.splits if_splits)
  next
    show "track key (EndArray (of_nat (length vs))) (False, Frame False False # fs) = (False, fs)"
      by simp
  next
    fix v and g :: "'a FilterKeyHandler"
    assume v: "v \<in> set vs" and g: "filterValueDepth g = 0" "keyString g = key"
      "length (filteredKeyCount g) = open_count (Frame False False # fs)"
    have "fits_depth key v" using Array.prems(3) v by (simp add: list_all_iff)
    then show "always out key in_step (events_of v) g (False, Frame False False # fs)"
      using g by (intro Array.IH [OF v]) simp_all
  next
    fix v and g g' :: "'a FilterKeyHandler"
    assume v: "v \<in> set vs" and g: "filterValueDepth g = 0" "keyString g = key"
      "Parse out (events_of v) g = Inr (True, g')"
    have "fits_depth key v" using Array.prems(3) v by (simp add: list_all_iff)
    from value_end [OF g(1,2) this g(3)]
    show "filterValueDepth g' = 0 \<and> keyString g' = key \<and>
        length (filteredKeyCount g') = length (filteredKeyCount g)" by simp
  next
    fix v assume "v \<in> set vs"
    show "track_run key (events_of v) (False, Frame False False # fs) =
        (False, Frame False False # fs)"
      by (rule track_run_value(1))
  qed
  then show ?case by simp
next
  case (Member k c v)
  have e0: "in_step h' (False, fs')" using Member.prems by (simp add: in_step_def)
  show ?case
  proof (cases "k = key")
    case True
    let ?h1 = "h'\<lparr>filterValueDepth := 1\<rparr>"
    have "always out key in_step (events_of v) ?h1 (True, fs')"
      using Member.prems True by (intro always_suppressed(1)) simp_all
    then show ?thesis
      using e0 Member.prems True by (simp add: always_Cons key_matches_key)
  next
    case False
    have "always out key in_step (events_of v) g (False, fs')"
      if "FilterKeyHandler_call out (Key k c) h' = Inr (True, g)" for g
    proof -
      have "filterValueDepth g = 0 \<and> keyString g = key \<and>
          length (filteredKeyCount g) = length (filteredKeyCount h')"
        using that Member.prems(1,2) False
        by (auto simp: key_matches_key forward_def split: list.splits prod.splits)
      then show ?thesis
        using Member.prems False by (intro Member.IH) simp_all
    qed
    then show ?thesis
      using e0 Member.prems(4) False by (simp add: always_Cons del: FilterKeyHandler_call.simps)
  qed
qed

lemma always_fits:
  "fits_depth key t \<Longrightarrow>
   always out key in_step (events_of t) (FilterKeyHandler_new c key) (False, [])"
  by (rule always_forwarded(1)) (simp_all add: inside_def open_count_def)

lemma in_step_prefix:
  assumes "fits_depth key t" "prefix pre (events_of t)"
    "Parse out pre (FilterKeyHandler_new c key) = Inr (True, h)"
  shows "length (filteredKeyCount h) = open_forwarded key pre"
    and "(filterValueDepth h \<noteq> 0) = in_suppressed key pre"
proof -
  have "in_step h (track_run key pre (False, []))"
    using always_fits [OF assms(1), of out c] assms(2,3) unfolding always_def by blast
  then show "length (filteredKeyCount h) = open_forwarded key pre"
    and "(filterValueDepth h \<noteq> 0) = in_suppressed key pre"
    by (auto simp: in_step_def open_forwarded_def in_suppressed_def split: prod.splits)
qed

subsection \<open>C1: without the filter key, the filter is the identity\<close>

text \<open>
  Claim C1. For every well-formed event stream with no \<^verbatim>\<open>Key\<close> event whose bytes are the
  filter key, the events forwarded to the consumer are exactly the input events, member
  and element counts included. First conjunct: whatever the consumer is, and in whatever
  state, a pass through a fresh filter leaves it with the answer and the state that
  delivering the input directly would have given. Second conjunct: a consumer that
  records its calls and accepts them all has recorded the input stream itself, the pass
  returns true, and the filter ends at depth 0 with an empty stack.
\<close>

theorem C1_identity:
  assumes "\<forall>copy. Key key copy \<notin> set (events_of t)"
  shows "consumer_view (FilterKeyReader_call (events_of t) key out c) =
           Some (deliver out (events_of t) c) \<and>
         FilterKeyReader_call (events_of t) key (recorder accept_all) [] =
           Inr (True, \<lparr>outputHandler = events_of t, keyString = key,
                  filterValueDepth = 0, filteredKeyCount = []\<rparr>)"
proof -
  have f: "filter_json key t = t" "fits_depth key t"
    using no_key_filter(1) [OF assms] by simp_all
  have p: "passes out' (events_of t) (events_of t) (FilterKeyHandler_new c' key) []"
    for out' :: "'b OutputHandler" and c'
    using passes_value(1) [of "FilterKeyHandler_new c' key" key t out'] f by simp
  have "consumer_view (Parse out (events_of t) (FilterKeyHandler_new c key)) =
      Some (deliver out (events_of t) c)"
    using passes_view [OF p [of out c]] by simp
  moreover have "Parse (recorder accept_all) (events_of t) (FilterKeyHandler_new [] key) =
      Inr (True, \<lparr>outputHandler = events_of t, keyString = key,
                  filterValueDepth = 0, filteredKeyCount = []\<rparr>)"
    using p [of "recorder accept_all" "[]"]
    by (simp add: passes_def deliver_recorder_all FilterKeyHandler_new_def)
  ultimately show ?thesis by (simp add: FilterKeyReader_call_def)
qed

text \<open>The theorem at the stream of \<^verbatim>\<open>{"a":{"b":2}}\<close>, which has no key \<^verbatim>\<open>coordinates\<close>.\<close>

theorem C1_identity_witness:
  "FilterKeyReader_call (events_of nested_expected) ''coordinates'' (recorder accept_all) [] =
     Inr (True, \<lparr>outputHandler =
        [StartObject, Key ''a'' True, StartObject, Key ''b'' True, Uint 2,
         EndObject 1, EndObject 1],
        keyString = ''coordinates'', filterValueDepth = 0, filteredKeyCount = []\<rparr>)"
  using C1_identity [of "''coordinates''" nested_expected "recorder accept_all" "[]"]
  by (simp add: nested_expected_def)


subsection \<open>C2: the forwarded member count and the number of forwarded keys\<close>












subsection \<open>C3: nothing is forwarded at a positive depth\<close>

text \<open>
  Claim C3, amended. For every input, at the moment the handler calls a method of the
  consumer the suppression depth, the 32-bit counter, is 0; and for every well-formed
  event stream in which each suppressed value opens at most \<open>2 ^ 32 - 2\<close> containers
  inside one another, no event is forwarded while the handler is inside a suppressed
  subtree. First conjunct, with a consumer that records every call it receives, for any
  event and any state of the handler: when \<open>filterValueDepth\<close> is not 0 the record does
  not change (no method of the consumer was called) and the handler returns true; and
  when the record changed, exactly one call was made, and \<open>filterValueDepth\<close> was 0 when
  the method was entered and is 0 when it returns. No branch of the handler writes the
  depth before its call of the consumer. Second conjunct: after any prefix of such a
  stream that the handler has processed, the depth is not 0 exactly when the next event
  lies inside a suppressed subtree of the input, and there no event whatever makes the
  handler call the consumer.
\<close>

theorem C3_forward_only_at_depth_zero:
  "(FilterKeyHandler_call (recorder acc) e h = Inr (ok, h') \<longrightarrow>
      (filterValueDepth h \<noteq> 0 \<longrightarrow> outputHandler h' = outputHandler h \<and> ok) \<and>
      (outputHandler h' \<noteq> outputHandler h \<longrightarrow>
         filterValueDepth h = 0 \<and> filterValueDepth h' = 0 \<and>
         (\<exists>e'. outputHandler h' = outputHandler h @ [e']))) \<and>
   (fits_depth key t \<and> prefix pre (events_of t) \<and>
    Parse (recorder acc) pre (FilterKeyHandler_new [] key) = Inr (True, g) \<longrightarrow>
      (filterValueDepth g \<noteq> 0) = in_suppressed key pre \<and>
      (in_suppressed key pre \<longrightarrow>
         (\<forall>e' ok' g'. FilterKeyHandler_call (recorder acc) e' g = Inr (ok', g') \<longrightarrow>
            outputHandler g' = outputHandler g)))"
proof (intro conjI impI)
  assume c: "FilterKeyHandler_call (recorder acc) e h = Inr (ok, h')"
  then show "filterValueDepth h \<noteq> 0 \<Longrightarrow> outputHandler h' = outputHandler h"
    and "filterValueDepth h \<noteq> 0 \<Longrightarrow> ok"
    by (cases e;
        auto simp: scalar_method_def forward_def recorder_def and_EndValue_def EndValue_def
          word_gt_0 split: if_splits list.splits)+
  assume "outputHandler h' \<noteq> outputHandler h"
  with c show "filterValueDepth h = 0" and "filterValueDepth h' = 0"
    and "\<exists>e'. outputHandler h' = outputHandler h @ [e']"
    by (cases e;
        auto simp: scalar_method_def forward_def recorder_def and_EndValue_def EndValue_def
          word_gt_0 split: if_splits list.splits)+
next
  assume a: "fits_depth key t \<and> prefix pre (events_of t) \<and>
    Parse (recorder acc) pre (FilterKeyHandler_new [] key) = Inr (True, g)"
  then show d: "(filterValueDepth g \<noteq> 0) = in_suppressed key pre"
    using in_step_prefix(2) [of key t pre "recorder acc" "[]" g] by simp
  assume "in_suppressed key pre"
  with d have nz: "filterValueDepth g \<noteq> 0" by simp
  show "\<forall>e' ok' g'. FilterKeyHandler_call (recorder acc) e' g = Inr (ok', g') \<longrightarrow>
            outputHandler g' = outputHandler g"
  proof (intro allI impI)
    fix e' ok' g'
    assume "FilterKeyHandler_call (recorder acc) e' g = Inr (ok', g')"
    with nz show "outputHandler g' = outputHandler g"
      by (cases e')
        (auto simp: scalar_method_def EndValue_def word_gt_0 split: if_splits)
  qed
qed

text \<open>The theorem at a forwarded scalar, and at the prefix of the nested document's
  stream that ends at the key \<^verbatim>\<open>"x"\<close> inside the suppressed value.\<close>

theorem C3_forward_only_at_depth_zero_witness:
  "FilterKeyHandler_call (recorder accept_all) (Uint 7)
     \<lparr>outputHandler = [StartArray], keyString = ''coordinates'', filterValueDepth = 0,
        filteredKeyCount = []\<rparr> =
   Inr (True, \<lparr>outputHandler = [StartArray, Uint 7], keyString = ''coordinates'',
          filterValueDepth = 0, filteredKeyCount = []\<rparr>) \<and>
   [StartArray, Uint 7] \<noteq> [StartArray] \<and>
   fits_depth ''coordinates'' nested_doc \<and>
   prefix [StartObject, Key ''a'' True, StartObject, Key ''coordinates'' True, StartObject]
     (events_of nested_doc) \<and>
   Parse (recorder accept_all)
     [StartObject, Key ''a'' True, StartObject, Key ''coordinates'' True, StartObject]
     (FilterKeyHandler_new [] ''coordinates'') =
   Inr (True, \<lparr>outputHandler = [StartObject, Key ''a'' True, StartObject],
          keyString = ''coordinates'', filterValueDepth = 2, filteredKeyCount = [0, 1]\<rparr>) \<and>
   in_suppressed ''coordinates''
     [StartObject, Key ''a'' True, StartObject, Key ''coordinates'' True, StartObject] \<and>
   FilterKeyHandler_call (recorder accept_all) (Key ''x'' True)
     \<lparr>outputHandler = [StartObject, Key ''a'' True, StartObject],
        keyString = ''coordinates'', filterValueDepth = 2, filteredKeyCount = [0, 1]\<rparr> =
   Inr (True, \<lparr>outputHandler = [StartObject, Key ''a'' True, StartObject],
          keyString = ''coordinates'', filterValueDepth = 2, filteredKeyCount = [0, 1]\<rparr>)"
proof -
  let ?pre = "[StartObject, Key ''a'' True, StartObject, Key ''coordinates'' True, StartObject]"
  let ?g = "\<lparr>outputHandler = [StartObject, Key ''a'' True, StartObject],
      keyString = ''coordinates'', filterValueDepth = 2, filteredKeyCount = [0, 1 :: SizeType]\<rparr>"
  have f: "fits_depth ''coordinates'' nested_doc" by (simp add: nested_doc_def)
  have p: "prefix ?pre (events_of nested_doc)" by (simp add: nested_doc_def)
  have r: "Parse (recorder accept_all) ?pre (FilterKeyHandler_new [] ''coordinates'') =
      Inr (True, ?g)"
    by (simp add: FilterKeyHandler_new_def forward_def recorder_def accept_all_def
        keyLength_def memcmp_eq0_def)
  have s: "in_suppressed ''coordinates'' ?pre"
    by (simp add: in_suppressed_def inside_def)
  have c1: "FilterKeyHandler_call (recorder accept_all) (Uint 7)
     \<lparr>outputHandler = [StartArray], keyString = ''coordinates'', filterValueDepth = 0,
        filteredKeyCount = []\<rparr> =
   Inr (True, \<lparr>outputHandler = [StartArray, Uint 7], keyString = ''coordinates'',
          filterValueDepth = 0, filteredKeyCount = []\<rparr>)"
    by (simp add: scalar_method_def forward_def recorder_def accept_all_def and_EndValue_def
      EndValue_def)
  have c2: "FilterKeyHandler_call (recorder accept_all) (Key ''x'' True) ?g = Inr (True, ?g)"
    by simp
  show ?thesis
    using C3_forward_only_at_depth_zero [where acc = accept_all and e = "Uint 7"
        and key = "''coordinates''" and t = nested_doc and pre = ?pre and g = ?g]
      f p r s c1 c2
    by simp
qed

lemma track_StartArrays:
  "p \<or> inside fs \<Longrightarrow>
   (case track_run key (replicate n StartArray) (p, fs) of (p', fs') \<Rightarrow> p' \<or> inside fs')"
proof (induction n arbitrary: p fs)
  case 0
  then show ?case by simp
next
  case (Suc n)
  have "False \<or> inside (Frame False (p \<or> inside fs) # fs)" using Suc.prems by simp
  from Suc.IH [OF this] show ?case by simp
qed

text \<open>
  Claim C3 as stated, at the well-formed stream of \<open>deep_doc\<close>. After the key
  \<^verbatim>\<open>coordinates\<close>, the \<open>2 ^ 32 - 2\<close> \<^verbatim>\<open>StartArray\<close> events and the \<^verbatim>\<open>StartObject\<close> of its
  value, the next event lies inside the suppressed subtree, the counter has wrapped to
  0, and the \<^verbatim>\<open>EndObject\<close> that comes next in the stream is forwarded to the consumer.
\<close>

theorem C3_deep_nesting_counterexample:
  "prefix
     (StartObject # Key ''coordinates'' True # replicate (2 ^ 32 - 2) StartArray
        @ [StartObject, EndObject 0])
     (events_of deep_doc) \<and>
   in_suppressed ''coordinates''
     (StartObject # Key ''coordinates'' True # replicate (2 ^ 32 - 2) StartArray
        @ [StartObject]) \<and>
   Parse (recorder accept_all)
     (StartObject # Key ''coordinates'' True # replicate (2 ^ 32 - 2) StartArray
        @ [StartObject])
     (FilterKeyHandler_new [] ''coordinates'') =
   Inr (True, \<lparr>outputHandler = [StartObject], keyString = ''coordinates'',
          filterValueDepth = 0, filteredKeyCount = [0]\<rparr>) \<and>
   FilterKeyHandler_call (recorder accept_all) (EndObject 0)
     \<lparr>outputHandler = [StartObject], keyString = ''coordinates'',
        filterValueDepth = 0, filteredKeyCount = [0]\<rparr> =
   Inr (True, \<lparr>outputHandler = [StartObject, EndObject 0], keyString = ''coordinates'',
          filterValueDepth = 0, filteredKeyCount = []\<rparr>)"
proof -
  let ?n = "2 ^ 32 - 2 :: nat"
  let ?key = "''coordinates''"
  let ?h1 = "\<lparr>outputHandler = [StartObject], keyString = ?key,
               filterValueDepth = 1, filteredKeyCount = [0 :: SizeType]\<rparr>"
  have ev: "events_of deep_doc =
      (StartObject # Key ?key True # replicate ?n StartArray @ [StartObject, EndObject 0])
        @ replicate ?n (EndArray 1) @ [EndObject 1]"
    by (simp add: deep_doc_def events_of_nest del: replicate.simps)
  have pre: "prefix
     (StartObject # Key ?key True # replicate ?n StartArray @ [StartObject, EndObject 0])
     (events_of deep_doc)"
    unfolding ev by (rule prefixI) (rule refl)
  have "case track_run ?key (replicate ?n StartArray) (True, [Frame True False]) of
      (p', fs') \<Rightarrow> p' \<or> inside fs'"
    by (rule track_StartArrays) simp
  then have sup: "in_suppressed ?key
     (StartObject # Key ?key True # replicate ?n StartArray @ [StartObject])"
    by (auto simp: in_suppressed_def track_run_append inside_def
        simp del: replicate.simps split: prod.splits)
  have a: "Parse (recorder accept_all)
       (StartObject # Key ?key True # replicate ?n StartArray @ [StartObject])
       (FilterKeyHandler_new [] ?key) =
     Parse (recorder accept_all) (replicate ?n StartArray @ [StartObject]) ?h1"
    by (simp add: FilterKeyHandler_new_def forward_def recorder_def accept_all_def
        keyLength_def memcmp_eq0_def del: replicate.simps)
  have b: "Parse (recorder accept_all) (replicate ?n StartArray @ [StartObject]) ?h1 =
     Parse (recorder accept_all) [StartObject] (?h1\<lparr>filterValueDepth := 1 + of_nat ?n\<rparr>)"
    using Parse_StartArrays [of ?h1 ?n "recorder accept_all" "[StartObject]"] by simp
  have d: "(1 :: 32 word) + of_nat ?n = - 1" by simp
  have pos: "(0 :: 32 word) < - 1" by (simp add: word_gt_0)
  have c: "Parse (recorder accept_all) [StartObject] (?h1\<lparr>filterValueDepth := - 1\<rparr>) =
     Inr (True, \<lparr>outputHandler = [StartObject], keyString = ?key,
          filterValueDepth = 0, filteredKeyCount = [0]\<rparr>)"
    using pos by simp
  have run: "Parse (recorder accept_all)
       (StartObject # Key ?key True # replicate ?n StartArray @ [StartObject])
       (FilterKeyHandler_new [] ?key) =
     Inr (True, \<lparr>outputHandler = [StartObject], keyString = ?key,
          filterValueDepth = 0, filteredKeyCount = [0]\<rparr>)"
    unfolding a b d c ..
  have fwd: "FilterKeyHandler_call (recorder accept_all) (EndObject 0)
     \<lparr>outputHandler = [StartObject], keyString = ?key,
        filterValueDepth = 0, filteredKeyCount = [0]\<rparr> =
   Inr (True, \<lparr>outputHandler = [StartObject, EndObject 0], keyString = ?key,
          filterValueDepth = 0, filteredKeyCount = []\<rparr>)"
    by (simp add: forward_def recorder_def accept_all_def and_EndValue_def EndValue_def)
  from pre sup run fwd show ?thesis by blast
qed

subsection \<open>C4: the end-of-value rule\<close>

text \<open>
  Claim C4. After any event that completes exactly one value (a scalar, \<^verbatim>\<open>EndObject\<close>,
  \<^verbatim>\<open>EndArray\<close>), suppressed or forwarded: if the suppression depth was 1 at the point
  where the rule applies it is 0 afterwards, and otherwise it is unchanged. The depth
  \<open>d\<close> at that point is the depth before the event, less one when the event closes a
  container inside a suppressed value.
\<close>

theorem C4_end_of_value:
  assumes "completes_value e" "FilterKeyHandler_call out e h = Inr (ok, h')"
  shows "filterValueDepth h' =
     (let d = (if closes_container e \<and> filterValueDepth h > 0
               then filterValueDepth h - 1 else filterValueDepth h)
      in if d = 1 then 0 else d)"
  using assms
  by (cases e)
    (auto simp: scalar_method_def forward_def and_EndValue_def EndValue_def Let_def
      word_gt_0 split: if_splits list.splits prod.splits)

text \<open>The theorem at an \<^verbatim>\<open>EndArray\<close> that closes the suppressed value itself (depth 2).\<close>

theorem C4_end_of_value_witness:
  "completes_value (EndArray 3) \<and>
   FilterKeyHandler_call (recorder accept_all) (EndArray 3)
     \<lparr>outputHandler = [StartObject], keyString = ''coordinates'', filterValueDepth = 2,
        filteredKeyCount = [0]\<rparr> =
   Inr (True, \<lparr>outputHandler = [StartObject], keyString = ''coordinates'',
          filterValueDepth = 0, filteredKeyCount = [0]\<rparr>)"
  using C4_end_of_value [of "EndArray 3" "recorder accept_all"
      "\<lparr>outputHandler = [StartObject], keyString = ''coordinates'', filterValueDepth = 2,
         filteredKeyCount = [0]\<rparr>" True
      "\<lparr>outputHandler = [StartObject], keyString = ''coordinates'',
         filterValueDepth = 0, filteredKeyCount = [0]\<rparr>"]
  by (simp add: EndValue_def)

subsection \<open>C5: the method Key\<close>

text \<open>
  Claim C5. On a \<^verbatim>\<open>Key\<close> event: at a positive depth the handler returns true and
  nothing changes, whatever the key's bytes; at depth 0 a key whose length and bytes are
  the filter key's sets the depth to 1 and returns true, the consumer untouched; any
  other key at depth 0 increments the top of the stack and is forwarded, and the handler
  returns what the consumer returned.
\<close>

theorem C5_Key:
  "(filterValueDepth h > 0 \<longrightarrow>
      FilterKeyHandler_call out (Key str copy) h = Inr (True, h)) \<and>
   (filterValueDepth h = 0 \<and> str = keyString h \<longrightarrow>
      FilterKeyHandler_call out (Key str copy) h = Inr (True, h\<lparr>filterValueDepth := 1\<rparr>)) \<and>
   (filterValueDepth h = 0 \<and> str \<noteq> keyString h \<and> filteredKeyCount h = n # st \<longrightarrow>
      FilterKeyHandler_call out (Key str copy) h =
        (case out (Key str copy) (outputHandler h) of
           (ok, c) \<Rightarrow> Inr (ok, h\<lparr>filteredKeyCount := (n + 1) # st, outputHandler := c\<rparr>)))"
  by (auto simp: key_matches_iff forward_def split: prod.splits)


text \<open>The theorem at the three branches.\<close>

theorem C5_Key_witness:
  "FilterKeyHandler_call (recorder accept_all) (Key ''coordinates'' True)
     \<lparr>outputHandler = [], keyString = ''coordinates'', filterValueDepth = 2,
        filteredKeyCount = [0]\<rparr> =
   Inr (True, \<lparr>outputHandler = [], keyString = ''coordinates'', filterValueDepth = 2,
        filteredKeyCount = [0]\<rparr>) \<and>
   FilterKeyHandler_call (recorder accept_all) (Key ''coordinates'' True)
     \<lparr>outputHandler = [], keyString = ''coordinates'', filterValueDepth = 0,
        filteredKeyCount = [0]\<rparr> =
   Inr (True, \<lparr>outputHandler = [], keyString = ''coordinates'', filterValueDepth = 1,
        filteredKeyCount = [0]\<rparr>) \<and>
   FilterKeyHandler_call (recorder accept_all) (Key ''b'' True)
     \<lparr>outputHandler = [], keyString = ''coordinates'', filterValueDepth = 0,
        filteredKeyCount = [0]\<rparr> =
   Inr (True, \<lparr>outputHandler = [Key ''b'' True], keyString = ''coordinates'',
        filterValueDepth = 0, filteredKeyCount = [1]\<rparr>)"
  using
    C5_Key [of "\<lparr>outputHandler = [], keyString = ''coordinates'', filterValueDepth = 2,
        filteredKeyCount = [0]\<rparr>" "recorder accept_all" "''coordinates''" True]
    C5_Key [of "\<lparr>outputHandler = [], keyString = ''coordinates'', filterValueDepth = 0,
        filteredKeyCount = [0]\<rparr>" "recorder accept_all" "''coordinates''" True]
    C5_Key [of "\<lparr>outputHandler = [], keyString = ''coordinates'', filterValueDepth = 0,
        filteredKeyCount = [0]\<rparr>" "recorder accept_all" "''b''" True 0 "[]"]
  by (simp add: recorder_def accept_all_def)

subsection \<open>C6: the nested match of the spec\<close>

text \<open>
  Claim C6. Filtering the stream of
  \<^verbatim>\<open>{"a":{"coordinates":{"x":1,"y":[1,2,{"coordinates":"deep"}]},"b":2}}\<close> on the key
  \<^verbatim>\<open>coordinates\<close> forwards exactly the stream of \<^verbatim>\<open>{"a":{"b":2}}\<close>, the inner object
  with member count 1; the key \<^verbatim>\<open>coordinates\<close> inside the suppressed value starts no
  second match, and forwarding resumes at \<^verbatim>\<open>"b"\<close>.
\<close>

theorem C6_nested_match:
  "FilterKeyReader_call (events_of nested_doc) ''coordinates'' (recorder accept_all) [] =
     Inr (True, \<lparr>outputHandler = events_of nested_expected,
        keyString = ''coordinates'', filterValueDepth = 0, filteredKeyCount = []\<rparr>) \<and>
   events_of nested_expected =
     [StartObject, Key ''a'' True, StartObject, Key ''b'' True, Uint 2,
      EndObject 1, EndObject 1]"
  by (simp add: nested_doc_def nested_expected_def FilterKeyReader_call_def
      FilterKeyHandler_new_def scalar_method_def forward_def recorder_def accept_all_def
      and_EndValue_def EndValue_def keyLength_def memcmp_eq0_def)

subsection \<open>C7: a rejection by the consumer\<close>

lemma call_False:
  "FilterKeyHandler_call out e h = Inr (False, h') \<Longrightarrow>
   filterValueDepth h = 0 \<and> (\<exists>e'. out e' (outputHandler h) = (False, outputHandler h'))"
  by (cases e)
    (auto simp: scalar_method_def forward_def and_EndValue_def EndValue_def word_gt_0
      split: if_splits list.splits prod.splits)

text \<open>
  Claim C7. When the handler forwards an event and the consumer's method returns false,
  the handler's method returns false and keeps the state it had at the call: the pushed
  counter (\<^verbatim>\<open>StartObject\<close>), the incremented counter (\<^verbatim>\<open>Key\<close>), the popped counter
  (\<^verbatim>\<open>EndObject\<close>) stay as they were made, and the consumer is in the state its method
  left. The handler returns false in no other case. In a pass, the events after the
  rejected one are not delivered: the pass ends false in the state of the rejection,
  whatever follows.
\<close>

theorem C7_consumer_rejection:
  "(filterValueDepth h = 0 \<and> passes_through e \<and> out e (outputHandler h) = (False, c) \<longrightarrow>
      FilterKeyHandler_call out e h = Inr (False, h\<lparr>outputHandler := c\<rparr>)) \<and>
   (filterValueDepth h = 0 \<and> out StartObject (outputHandler h) = (False, c) \<longrightarrow>
      FilterKeyHandler_call out StartObject h =
        Inr (False, h\<lparr>filteredKeyCount := 0 # filteredKeyCount h, outputHandler := c\<rparr>)) \<and>
   (filterValueDepth h = 0 \<and> str \<noteq> keyString h \<and> filteredKeyCount h = n # st \<and>
    out (Key str copy) (outputHandler h) = (False, c) \<longrightarrow>
      FilterKeyHandler_call out (Key str copy) h =
        Inr (False, h\<lparr>filteredKeyCount := (n + 1) # st, outputHandler := c\<rparr>)) \<and>
   (filterValueDepth h = 0 \<and> filteredKeyCount h = n # st \<and>
    out (EndObject n) (outputHandler h) = (False, c) \<longrightarrow>
      FilterKeyHandler_call out (EndObject upstream) h =
        Inr (False, h\<lparr>filteredKeyCount := st, outputHandler := c\<rparr>)) \<and>
   (FilterKeyHandler_call out e h = Inr (False, h') \<longrightarrow>
      filterValueDepth h = 0 \<and> (\<exists>e'. out e' (outputHandler h) = (False, outputHandler h'))) \<and>
   (Parse out pre h0 = Inr (True, h) \<and> FilterKeyHandler_call out e h = Inr (False, h') \<longrightarrow>
      Parse out (pre @ e # rest) h0 = Inr (False, h'))"
proof (intro conjI impI)
  assume "filterValueDepth h = 0 \<and> passes_through e \<and> out e (outputHandler h) = (False, c)"
  then show "FilterKeyHandler_call out e h = Inr (False, h\<lparr>outputHandler := c\<rparr>)"
    by (cases e) (simp_all add: scalar_method_def forward_def and_EndValue_def)
next
  assume "FilterKeyHandler_call out e h = Inr (False, h')"
  then show "filterValueDepth h = 0"
    and "\<exists>e'. out e' (outputHandler h) = (False, outputHandler h')"
    using call_False by blast+
next
  assume "Parse out pre h0 = Inr (True, h) \<and> FilterKeyHandler_call out e h = Inr (False, h')"
  then show "Parse out (pre @ e # rest) h0 = Inr (False, h')"
    by (simp add: Parse_append)
qed (simp_all add: forward_def and_EndValue_def key_matches_iff)

text \<open>The theorem at a consumer that rejects its third call: the popped count of an
  \<^verbatim>\<open>EndObject\<close> is not restored, and a pass stops at the rejected \<^verbatim>\<open>Uint\<close>.\<close>

theorem C7_consumer_rejection_witness:
  "FilterKeyHandler_call (recorder (\<lambda>log e. length log < 2)) (EndObject 9)
     \<lparr>outputHandler = [StartObject, StartObject], keyString = ''coordinates'',
        filterValueDepth = 0, filteredKeyCount = [0, 1]\<rparr> =
   Inr (False, \<lparr>outputHandler = [StartObject, StartObject, EndObject 0],
          keyString = ''coordinates'', filterValueDepth = 0, filteredKeyCount = [1]\<rparr>) \<and>
   Parse (recorder (\<lambda>log e. length log < 2))
     ([StartObject, Key ''a'' True] @ Uint 1 # [EndObject 1])
     (FilterKeyHandler_new [] ''coordinates'') =
   Inr (False, \<lparr>outputHandler = [StartObject, Key ''a'' True, Uint 1],
          keyString = ''coordinates'', filterValueDepth = 0, filteredKeyCount = [1]\<rparr>)"
  using
    C7_consumer_rejection [of
      "\<lparr>outputHandler = [StartObject, StartObject], keyString = ''coordinates'',
         filterValueDepth = 0, filteredKeyCount = [0, 1]\<rparr>"
      "Uint 1" "recorder (\<lambda>log e. length log < 2)"
      "[StartObject, StartObject, EndObject 0]" "''a''" 0 "[1]" True 9
      "\<lparr>outputHandler = [StartObject, StartObject, EndObject 0],
         keyString = ''coordinates'', filterValueDepth = 0, filteredKeyCount = [1]\<rparr>"
      "[]" "FilterKeyHandler_new [] ''coordinates''" "[]"]
    C7_consumer_rejection [of
      "\<lparr>outputHandler = [StartObject, Key ''a'' True], keyString = ''coordinates'',
         filterValueDepth = 0, filteredKeyCount = [1]\<rparr>"
      "Uint 1" "recorder (\<lambda>log e. length log < 2)"
      "[StartObject, Key ''a'' True, Uint 1]" "''a''" 1 "[]" True 9
      "\<lparr>outputHandler = [StartObject, Key ''a'' True, Uint 1],
         keyString = ''coordinates'', filterValueDepth = 0, filteredKeyCount = [1]\<rparr>"
      "[StartObject, Key ''a'' True]" "FilterKeyHandler_new [] ''coordinates''"
      "[EndObject 1]"]
  by (simp add: FilterKeyHandler_new_def scalar_method_def forward_def recorder_def
      and_EndValue_def EndValue_def keyLength_def memcmp_eq0_def)

subsection \<open>C8: the member-count stack and the open objects that were forwarded\<close>


text \<open>
  Without the bound on the nesting the claim fails. In \<open>deep_doc\<close> the value of
  \<^verbatim>\<open>coordinates\<close> is an empty object inside \<open>2 ^ 32 - 2\<close> arrays. The matching key sets
  the depth to 1, the arrays raise it to \<open>2 ^ 32 - 1\<close>, and the \<^verbatim>\<open>StartObject\<close> of the
  empty object wraps it to 0. The \<^verbatim>\<open>EndObject\<close> that follows is then handled at depth 0
  and pops the counter of the enclosing object, and the \<^verbatim>\<open>EndObject\<close> of the enclosing
  object finds the stack empty.
\<close>



subsection \<open>C9: the exit codes of main\<close>










subsection \<open>C10: the key is fixed\<close>

text \<open>
  Claim C10. Whatever the invocation, the key \<^verbatim>\<open>main\<close> hands to the filter is the
  11-byte string \<^verbatim>\<open>coordinates\<close>: \<^verbatim>\<open>main\<close> is the same function of its arguments and
  of the outside world when every use of \<open>Populate\<close> is replaced by its use at that key
  and that length.
\<close>

theorem C10_fixed_key:
  "main argv0 args fopen Populate GetParseError_En id_counts =
     main argv0 args fopen (\<lambda>fp key len. Populate fp ''coordinates'' 11) GetParseError_En
       id_counts \<and>
   length ''coordinates'' = 11"
  by (simp add: main_def Let_def eval_nat_numeral split: option.splits)

end
